theory Spec2Isabelle
  imports Main "HOL-Library.Word"
begin

unbundle bit_operations_syntax

section \<open>Rockchip OTP driver (drivers/nvmem/rockchip-otp.c)\<close>

text \<open>
  The driver reads fuse memory through three controller generations: px30 (GEN-A, one
  byte per access), rk3568 (GEN-B, 16-bit words with an ECC status word) and rk3588
  (GEN-C, 32-bit words through the auto sequencer).  It is embedded with explicit state
  passing.  The state is the \<^emph>\<open>trace\<close>: the list, oldest first, of every call the driver has
  made to the platform (register accesses, delays, clock, reset, allocator and log calls),
  each with the value the platform returned.  The bytes stored through the caller's
  pointer \<open>val\<close> are returned beside the trace, in the order of the stores, which always
  run upwards from \<open>val[0]\<close>.

  Integers are the C ones of an LP64 little-endian kernel: \<open>unsigned int\<close> and \<open>u32\<close> are
  \<open>32 word\<close>, \<open>size_t\<close> is \<open>64 word\<close>, \<open>u8\<close> is \<open>8 word\<close>; \<open>int\<close> return codes are
  small and modelled as \<open>int\<close>.
\<close>

type_synonym u8 = "8 word"
type_synonym u32 = "32 word"
type_synonym u64 = "64 word"

subsection \<open>Register offsets, bits and masks\<close>

abbreviation (input) OTPC_SBPI_CTRL :: u32 where "OTPC_SBPI_CTRL \<equiv> 0x0020"
abbreviation (input) OTPC_SBPI_CMD_VALID_PRE :: u32 where "OTPC_SBPI_CMD_VALID_PRE \<equiv> 0x0024"
abbreviation (input) OTPC_SBPI_CS_VALID_PRE :: u32 where "OTPC_SBPI_CS_VALID_PRE \<equiv> 0x0028"
abbreviation (input) OTPC_SBPI_STATUS :: u32 where "OTPC_SBPI_STATUS \<equiv> 0x002C"
abbreviation (input) OTPC_USER_CTRL :: u32 where "OTPC_USER_CTRL \<equiv> 0x0100"
abbreviation (input) OTPC_USER_ADDR :: u32 where "OTPC_USER_ADDR \<equiv> 0x0104"
abbreviation (input) OTPC_USER_ENABLE :: u32 where "OTPC_USER_ENABLE \<equiv> 0x0108"
abbreviation (input) OTPC_USER_QP :: u32 where "OTPC_USER_QP \<equiv> 0x0120"
abbreviation (input) OTPC_USER_Q :: u32 where "OTPC_USER_Q \<equiv> 0x0124"
abbreviation (input) OTPC_INT_STATUS :: u32 where "OTPC_INT_STATUS \<equiv> 0x0304"
abbreviation (input) OTPC_SBPI_CMD0_OFFSET :: u32 where "OTPC_SBPI_CMD0_OFFSET \<equiv> 0x1000"
abbreviation (input) OTPC_SBPI_CMD1_OFFSET :: u32 where "OTPC_SBPI_CMD1_OFFSET \<equiv> 0x1004"

text \<open>\<open>BIT(n)\<close> is \<open>1 << n\<close> and \<open>GENMASK(h, l)\<close> has exactly the bits \<open>l..h\<close> set.\<close>

abbreviation (input) OTPC_USER_ADDR_MASK :: u32 where "OTPC_USER_ADDR_MASK \<equiv> 0xFFFF0000"
abbreviation (input) OTPC_USE_USER :: u32 where "OTPC_USE_USER \<equiv> 0x1"
abbreviation (input) OTPC_USE_USER_MASK :: u32 where "OTPC_USE_USER_MASK \<equiv> 0x10000"
abbreviation (input) OTPC_USER_FSM_ENABLE :: u32 where "OTPC_USER_FSM_ENABLE \<equiv> 0x1"
abbreviation (input) OTPC_USER_FSM_ENABLE_MASK :: u32 where "OTPC_USER_FSM_ENABLE_MASK \<equiv> 0x10000"
abbreviation (input) OTPC_SBPI_DONE :: u32 where "OTPC_SBPI_DONE \<equiv> 0x2"
abbreviation (input) OTPC_USER_DONE :: u32 where "OTPC_USER_DONE \<equiv> 0x4"

abbreviation (input) SBPI_DAP_ADDR :: u32 where "SBPI_DAP_ADDR \<equiv> 0x02"
abbreviation (input) SBPI_DAP_ADDR_SHIFT :: nat where "SBPI_DAP_ADDR_SHIFT \<equiv> 8"
abbreviation (input) SBPI_DAP_ADDR_MASK :: u32 where "SBPI_DAP_ADDR_MASK \<equiv> 0xFF000000"
abbreviation (input) SBPI_CMD_VALID_MASK :: u32 where "SBPI_CMD_VALID_MASK \<equiv> 0xFFFF0000"
abbreviation (input) SBPI_DAP_CMD_WRF :: u32 where "SBPI_DAP_CMD_WRF \<equiv> 0xC0"
abbreviation (input) SBPI_DAP_REG_ECC :: u32 where "SBPI_DAP_REG_ECC \<equiv> 0x3A"
abbreviation (input) SBPI_ECC_ENABLE :: u32 where "SBPI_ECC_ENABLE \<equiv> 0x00"
abbreviation (input) SBPI_ECC_DISABLE :: u32 where "SBPI_ECC_DISABLE \<equiv> 0x09"
abbreviation (input) SBPI_ENABLE :: u32 where "SBPI_ENABLE \<equiv> 0x1"
abbreviation (input) SBPI_ENABLE_MASK :: u32 where "SBPI_ENABLE_MASK \<equiv> 0x10000"

abbreviation (input) OTPC_TIMEOUT :: nat where "OTPC_TIMEOUT \<equiv> 10000"

abbreviation (input) RK3568_NBYTES :: nat where "RK3568_NBYTES \<equiv> 2"

abbreviation (input) RK3588_OTPC_AUTO_CTRL :: u32 where "RK3588_OTPC_AUTO_CTRL \<equiv> 0x004"
abbreviation (input) RK3588_OTPC_AUTO_EN :: u32 where "RK3588_OTPC_AUTO_EN \<equiv> 0x008"
abbreviation (input) RK3588_OTPC_INT_ST :: u32 where "RK3588_OTPC_INT_ST \<equiv> 0x084"
abbreviation (input) RK3588_OTPC_DOUT0 :: u32 where "RK3588_OTPC_DOUT0 \<equiv> 0x020"
abbreviation (input) RK3588_NO_SECURE_OFFSET :: u32 where "RK3588_NO_SECURE_OFFSET \<equiv> 0x300"
abbreviation (input) RK3588_NBYTES :: nat where "RK3588_NBYTES \<equiv> 4"
abbreviation (input) RK3588_BURST_NUM :: u32 where "RK3588_BURST_NUM \<equiv> 1"
abbreviation (input) RK3588_BURST_SHIFT :: nat where "RK3588_BURST_SHIFT \<equiv> 8"
abbreviation (input) RK3588_ADDR_SHIFT :: nat where "RK3588_ADDR_SHIFT \<equiv> 16"
abbreviation (input) RK3588_AUTO_EN :: u32 where "RK3588_AUTO_EN \<equiv> 0x1"
abbreviation (input) RK3588_RD_DONE :: u32 where "RK3588_RD_DONE \<equiv> 0x2"

text \<open>The error numbers of \<open>errno-base.h\<close> and \<open>errno.h\<close>.\<close>

abbreviation (input) EIO :: int where "EIO \<equiv> 5"
abbreviation (input) ENOMEM :: int where "ENOMEM \<equiv> 12"
abbreviation (input) EINVAL :: int where "EINVAL \<equiv> 22"
abbreviation (input) ETIMEDOUT :: int where "ETIMEDOUT \<equiv> 110"

subsection \<open>The platform\<close>

text \<open>
  Every call that leaves the driver is an event.  \<open>Writel v a\<close> is \<open>writel(v, base + a)\<close>;
  \<open>Readl a v\<close> and \<open>Readb a v\<close> are loads from \<open>base + a\<close> that returned \<open>v\<close>; the clock and
  reset events carry the return value of the call, \<open>Kzalloc n ok\<close> whether an allocation
  of \<open>n\<close> bytes returned a buffer.
\<close>

datatype event =
    Writel u32 u32
  | Readl u32 u32
  | Readb u32 u8
  | Udelay nat
  | ClkEnable int
  | ClkDisable
  | RstAssert int
  | RstDeassert int
  | Kzalloc nat bool
  | Kfree
  | DevErr string
  | MutexLock
  | MutexUnlock

text \<open>
  The controller, the clock and reset frameworks and the allocator are outside the
  driver.  They are a parameter: a deterministic platform answers each call from the
  history of all calls made so far, so any stateful device, failing or not, is one value
  of this record.
\<close>

record platform =
  readl_val :: "event list \<Rightarrow> u32 \<Rightarrow> u32"
  readb_val :: "event list \<Rightarrow> u32 \<Rightarrow> u8"
  clk_enable_ret :: "event list \<Rightarrow> int"
  assert_ret :: "event list \<Rightarrow> int"
  deassert_ret :: "event list \<Rightarrow> int"
  kzalloc_ok :: "event list \<Rightarrow> nat \<Rightarrow> bool"

definition writel :: "u32 \<Rightarrow> u32 \<Rightarrow> event list \<Rightarrow> event list" where
  "writel v a tr = tr @ [Writel v a]"

definition readl :: "platform \<Rightarrow> u32 \<Rightarrow> event list \<Rightarrow> u32 \<times> event list" where
  "readl p a tr = (let v = readl_val p tr a in (v, tr @ [Readl a v]))"

definition readb :: "platform \<Rightarrow> u32 \<Rightarrow> event list \<Rightarrow> u8 \<times> event list" where
  "readb p a tr = (let v = readb_val p tr a in (v, tr @ [Readb a v]))"

definition udelay :: "nat \<Rightarrow> event list \<Rightarrow> event list" where
  "udelay us tr = tr @ [Udelay us]"

definition dev_err :: "string \<Rightarrow> event list \<Rightarrow> event list" where
  "dev_err msg tr = tr @ [DevErr msg]"

definition clk_bulk_prepare_enable :: "platform \<Rightarrow> event list \<Rightarrow> int \<times> event list" where
  "clk_bulk_prepare_enable p tr = (let r = clk_enable_ret p tr in (r, tr @ [ClkEnable r]))"

definition clk_bulk_disable_unprepare :: "event list \<Rightarrow> event list" where
  "clk_bulk_disable_unprepare tr = tr @ [ClkDisable]"

definition reset_control_assert :: "platform \<Rightarrow> event list \<Rightarrow> int \<times> event list" where
  "reset_control_assert p tr = (let r = assert_ret p tr in (r, tr @ [RstAssert r]))"

definition reset_control_deassert :: "platform \<Rightarrow> event list \<Rightarrow> int \<times> event list" where
  "reset_control_deassert p tr = (let r = deassert_ret p tr in (r, tr @ [RstDeassert r]))"

text \<open>\<open>kzalloc\<close> returns zeroed memory, or \<open>NULL\<close> (here \<open>None\<close>).\<close>

definition kzalloc :: "platform \<Rightarrow> nat \<Rightarrow> event list \<Rightarrow> u8 list option \<times> event list" where
  "kzalloc p n tr =
     (let ok = kzalloc_ok p tr n
      in (if ok then Some (replicate n 0) else None, tr @ [Kzalloc n ok]))"

definition kfree :: "event list \<Rightarrow> event list" where
  "kfree tr = tr @ [Kfree]"

text \<open>
  \<open>array3_size\<close> (linux/overflow.h) multiplies three sizes and saturates at \<open>SIZE_MAX\<close>.
\<close>

definition array3_size :: "nat \<Rightarrow> nat \<Rightarrow> nat \<Rightarrow> nat" where
  "array3_size a b c = (if a * b * c < 2 ^ 64 then a * b * c else 2 ^ 64 - 1)"

text \<open>
  \<open>rounddown(x, y)\<close> is \<open>x - x % y\<close> and \<open>roundup(x, y)\<close> is \<open>((x + (y - 1)) / y) * y\<close>
  (linux/math.h), both in the unsigned type of \<open>x\<close>.
\<close>

definition rounddown :: "'a::len word \<Rightarrow> 'a word \<Rightarrow> 'a word" where
  "rounddown x y = x - x mod y"

definition roundup :: "'a::len word \<Rightarrow> 'a word \<Rightarrow> 'a word" where
  "roundup x y = ((x + (y - 1)) div y) * y"

text \<open>
  \<open>memcpy(&buf[i], &out_value, n)\<close> stores the first \<open>n\<close> bytes of a \<open>u32\<close> object; on
  the little-endian kernels these SoCs run, they are its least significant bytes.
\<close>

definition le_bytes :: "nat \<Rightarrow> u32 \<Rightarrow> u8 list" where
  "le_bytes n v = map (\<lambda>k. ucast (drop_bit (8 * k) v)) [0..<n]"

definition memcpy_at :: "u8 list \<Rightarrow> nat \<Rightarrow> u8 list \<Rightarrow> u8 list" where
  "memcpy_at buf i bs = take i buf @ bs @ drop (i + length bs) buf"

subsection \<open>Polling\<close>

text \<open>
  Modelled from the spec: \<open>readl_poll_timeout_atomic\<close> (linux/iopoll.h) is not among the
  sources.  The spec has it loop reading the 32-bit word with the given period until the
  condition holds or the timeout elapses: the word is read at \<open>0, d, 2d, ...\<close>
  microseconds, the last time when the timeout has elapsed, with a delay of one period
  between two reads.  The result is \<open>0\<close> if the condition held at a read and
  \<open>-ETIMEDOUT\<close> otherwise.  The condition is the macro argument written in the driver.
\<close>

fun poll_loop ::
  "platform \<Rightarrow> u32 \<Rightarrow> (u32 \<Rightarrow> bool) \<Rightarrow> nat \<Rightarrow> nat \<Rightarrow> event list \<Rightarrow> int \<times> event list"
where
  "poll_loop p a cond d 0 tr =
     (let (v, tr) = readl p a tr in (if cond v then 0 else - ETIMEDOUT, tr))"
| "poll_loop p a cond d (Suc n) tr =
     (let (v, tr) = readl p a tr
      in if cond v then (0, tr) else poll_loop p a cond d n (udelay d tr))"

definition readl_poll_timeout_atomic ::
  "platform \<Rightarrow> u32 \<Rightarrow> (u32 \<Rightarrow> bool) \<Rightarrow> nat \<Rightarrow> nat \<Rightarrow> event list \<Rightarrow> int \<times> event list"
where
  "readl_poll_timeout_atomic p a cond delay_us timeout_us tr =
     poll_loop p a cond delay_us (timeout_us div delay_us) tr"

subsection \<open>Reset, status wait and the SBPI command\<close>

definition rockchip_otp_reset :: "platform \<Rightarrow> event list \<Rightarrow> int \<times> event list" where
  "rockchip_otp_reset p tr =
     (let (ret, tr) = reset_control_assert p tr
      in if ret \<noteq> 0 then (ret, dev_err ''failed to assert otp phy'' tr)
         else let tr = udelay 2 tr;
                  (ret, tr) = reset_control_deassert p tr
              in if ret \<noteq> 0 then (ret, dev_err ''failed to deassert otp phy'' tr)
                 else (0, tr))"

definition px30_otp_wait_status :: "platform \<Rightarrow> u32 \<Rightarrow> event list \<Rightarrow> int \<times> event list" where
  "px30_otp_wait_status p flag tr =
     (let (ret, tr) =
            readl_poll_timeout_atomic p OTPC_INT_STATUS (\<lambda>status. status AND flag \<noteq> 0)
              1 OTPC_TIMEOUT tr
      in if ret \<noteq> 0 then (ret, tr)
         else (0, writel flag OTPC_INT_STATUS tr))"

definition px30_otp_ecc_enable :: "platform \<Rightarrow> bool \<Rightarrow> event list \<Rightarrow> int \<times> event list" where
  "px30_otp_ecc_enable p enable tr =
     (let tr = writel (SBPI_DAP_ADDR_MASK OR push_bit SBPI_DAP_ADDR_SHIFT SBPI_DAP_ADDR)
                 OTPC_SBPI_CTRL tr;
          tr = writel (SBPI_CMD_VALID_MASK OR 0x1) OTPC_SBPI_CMD_VALID_PRE tr;
          tr = writel (SBPI_DAP_CMD_WRF OR SBPI_DAP_REG_ECC) OTPC_SBPI_CMD0_OFFSET tr;
          tr = (if enable then writel SBPI_ECC_ENABLE OTPC_SBPI_CMD1_OFFSET tr
                else writel SBPI_ECC_DISABLE OTPC_SBPI_CMD1_OFFSET tr);
          tr = writel (SBPI_ENABLE_MASK OR SBPI_ENABLE) OTPC_SBPI_CTRL tr;
          (ret, tr) = px30_otp_wait_status p OTPC_SBPI_DONE tr
      in if ret < 0 then (ret, dev_err ''timeout during ecc_enable'' tr) else (ret, tr))"

subsection \<open>Generation descriptors\<close>

text \<open>
  Of \<open>struct rockchip_data\<close> the model keeps the fields the read path uses (\<open>size\<close> is
  \<open>size_bytes\<close> here); the function pointer \<open>reg_read\<close> is one of the three engines or
  \<open>NULL\<close>.
\<close>

datatype reg_read_t = Px30_otp_read | Rk3568_otp_read | Rk3588_otp_read

record rockchip_data =
  size_bytes :: u32
  clocks :: "string list"
  reg_read :: "reg_read_t option"

definition px30_data :: rockchip_data where
  "px30_data = \<lparr>size_bytes = 0x40, clocks = [''otp'', ''apb_pclk'', ''phy''],
                reg_read = Some Px30_otp_read\<rparr>"

definition rk3568_data :: rockchip_data where
  "rk3568_data = \<lparr>size_bytes = 0x80, clocks = [''usr'', ''sbpi'', ''apb'', ''phy''],
                  reg_read = Some Rk3568_otp_read\<rparr>"

definition rk3588_data :: rockchip_data where
  "rk3588_data = \<lparr>size_bytes = 0x400, clocks = [''otpc'', ''apb'', ''arb'', ''phy''],
                  reg_read = Some Rk3588_otp_read\<rparr>"

subsection \<open>The px30 engine\<close>

text \<open>
  A read returns its result, the bytes stored through \<open>val\<close> and the trace.  The result
  is \<open>Inr ret\<close> for \<open>return ret\<close>.  \<open>Inl Scratch_Overrun\<close> stands for the one place where
  the C code has no defined behaviour: the final \<open>memcpy\<close> of the word engines reading past
  the end of the scratch allocation.
\<close>

datatype fault = Scratch_Overrun

type_synonym read_result = "(fault + int) \<times> u8 list \<times> event list"

text \<open>The labels \<open>read_end\<close> and \<open>disable_clks\<close> of \<open>px30_otp_read\<close>.\<close>

definition px30_disable_clks :: "event list \<Rightarrow> event list" where
  "px30_disable_clks tr = clk_bulk_disable_unprepare tr"

definition px30_read_end :: "event list \<Rightarrow> event list" where
  "px30_read_end tr = px30_disable_clks (writel (0x0 OR OTPC_USE_USER_MASK) OTPC_USER_CTRL tr)"

text \<open>
  \<open>while (bytes--)\<close>: the first argument counts the iterations left, \<open>out\<close> collects the
  stores \<open>*buf++ = ...\<close>.  Leaving the loop by \<open>goto read_end\<close> and falling out of it reach
  the same label.
\<close>

fun px30_read_loop ::
  "platform \<Rightarrow> nat \<Rightarrow> u32 \<Rightarrow> int \<Rightarrow> u8 list \<Rightarrow> event list \<Rightarrow> int \<times> u8 list \<times> event list"
where
  "px30_read_loop p 0 offset ret out tr = (ret, out, tr)"
| "px30_read_loop p (Suc n) offset ret out tr =
     (let tr = writel (offset OR OTPC_USER_ADDR_MASK) OTPC_USER_ADDR tr;
          tr = writel (OTPC_USER_FSM_ENABLE OR OTPC_USER_FSM_ENABLE_MASK) OTPC_USER_ENABLE tr;
          (ret, tr) = px30_otp_wait_status p OTPC_USER_DONE tr
      in if ret < 0 then (ret, out, dev_err ''timeout during read setup'' tr)
         else let (b, tr) = readb p OTPC_USER_Q tr
              in px30_read_loop p n (offset + 1) ret (out @ [b]) tr)"

definition px30_otp_read :: "platform \<Rightarrow> u32 \<Rightarrow> u64 \<Rightarrow> event list \<Rightarrow> read_result" where
  "px30_otp_read p offset bytes tr =
     (let (ret, tr) = clk_bulk_prepare_enable p tr
      in if ret < 0 then (Inr ret, [], dev_err ''failed to prepare/enable clks'' tr)
         else let (ret, tr) = rockchip_otp_reset p tr
         in if ret \<noteq> 0
            then (Inr ret, [], px30_disable_clks (dev_err ''failed to reset otp phy'' tr))
            else let (ret, tr) = px30_otp_ecc_enable p False tr
            in if ret < 0
               then (Inr ret, [], px30_disable_clks (dev_err ''rockchip_otp_ecc_enable err'' tr))
               else let tr = writel (OTPC_USE_USER OR OTPC_USE_USER_MASK) OTPC_USER_CTRL tr;
                        tr = udelay 5 tr;
                        (ret, out, tr) = px30_read_loop p (unat bytes) offset ret [] tr
                    in (Inr ret, out, px30_read_end tr))"

subsection \<open>The rk3568 engine\<close>

text \<open>The labels \<open>read_end\<close>, \<open>disable_clks\<close> and \<open>out\<close> of \<open>rk3568_otp_read\<close>.\<close>

definition rk3568_out :: "event list \<Rightarrow> event list" where
  "rk3568_out tr = kfree tr"

definition rk3568_disable_clks :: "event list \<Rightarrow> event list" where
  "rk3568_disable_clks tr = rk3568_out (clk_bulk_disable_unprepare tr)"

definition rk3568_read_end :: "event list \<Rightarrow> event list" where
  "rk3568_read_end tr =
     rk3568_disable_clks (writel (0x0 OR OTPC_USE_USER_MASK) OTPC_USER_CTRL tr)"

text \<open>
  \<open>while (addr_len--)\<close>.  The loop returns \<open>None\<close> for the scratch buffer when it is left
  by \<open>goto read_end\<close>, which skips the copy to the caller, and the filled buffer when it
  runs to its end.
\<close>

fun rk3568_read_loop ::
  "platform \<Rightarrow> nat \<Rightarrow> u32 \<Rightarrow> nat \<Rightarrow> u8 list \<Rightarrow> int \<Rightarrow> event list
     \<Rightarrow> int \<times> u8 list option \<times> event list"
where
  "rk3568_read_loop p 0 addr_start i buf ret tr = (ret, Some buf, tr)"
| "rk3568_read_loop p (Suc n) addr_start i buf ret tr =
     (let tr = writel (addr_start OR OTPC_USER_ADDR_MASK) OTPC_USER_ADDR tr;
          tr = writel (OTPC_USER_FSM_ENABLE OR OTPC_USER_FSM_ENABLE_MASK) OTPC_USER_ENABLE tr;
          (ret, tr) = px30_otp_wait_status p OTPC_USER_DONE tr
      in if ret < 0 then (ret, None, dev_err ''timeout during read setup'' tr)
         else let (otp_qp, tr) = readl p OTPC_USER_QP tr
         in if otp_qp AND 0xc0 = 0xc0 \<or> otp_qp AND 0x20 \<noteq> 0
            then (- EIO, None, dev_err ''ecc check error during read setup'' tr)
            else let (out_value, tr) = readl p OTPC_USER_Q tr;
                     buf = memcpy_at buf i (le_bytes RK3568_NBYTES out_value)
                 in rk3568_read_loop p n (addr_start + 1) (i + RK3568_NBYTES) buf ret tr)"

text \<open>
  \<open>rk3568_otp_read\<close> first computes the word range of the request; \<open>rk3568_transfer\<close> is
  the rest of its body, from the allocation of the scratch buffer on, over the local
  variables \<open>addr_len\<close>, \<open>addr_start\<close> and \<open>addr_offset\<close>.
\<close>

definition rk3568_transfer ::
  "platform \<Rightarrow> u32 \<Rightarrow> u32 \<Rightarrow> u32 \<Rightarrow> u64 \<Rightarrow> event list \<Rightarrow> read_result"
where
  "rk3568_transfer p addr_len addr_start addr_offset bytes tr =
     (let (buf, tr) = kzalloc p (array3_size (unat addr_len) RK3568_NBYTES 1) tr
      in case buf of
           None \<Rightarrow> (Inr (- ENOMEM), [], tr)
         | Some buf \<Rightarrow>
             let (ret, tr) = clk_bulk_prepare_enable p tr
             in if ret < 0
                then (Inr ret, [], rk3568_out (dev_err ''failed to prepare/enable clks'' tr))
                else let (ret, tr) = rockchip_otp_reset p tr
                in if ret \<noteq> 0
                   then (Inr ret, [], rk3568_disable_clks (dev_err ''failed to reset otp phy'' tr))
                   else let (ret, tr) = px30_otp_ecc_enable p True tr
                   in if ret < 0
                      then (Inr ret, [],
                            rk3568_disable_clks (dev_err ''rockchip_otp_ecc_enable err'' tr))
                      else let tr = writel (OTPC_USE_USER OR OTPC_USE_USER_MASK) OTPC_USER_CTRL tr;
                               tr = udelay 5 tr;
                               (ret, res, tr) =
                                 rk3568_read_loop p (unat addr_len) addr_start 0 buf ret tr
                           in case res of
                                None \<Rightarrow> (Inr ret, [], rk3568_read_end tr)
                              | Some buf \<Rightarrow>
                                  if unat addr_offset + unat bytes \<le> length buf
                                  then (Inr ret,
                                        take (unat bytes) (drop (unat addr_offset) buf),
                                        rk3568_read_end tr)
                                  else (Inl Scratch_Overrun, [], tr))"

definition rk3568_otp_read :: "platform \<Rightarrow> u32 \<Rightarrow> u64 \<Rightarrow> event list \<Rightarrow> read_result" where
  "rk3568_otp_read p offset bytes tr =
     (let addr_start = rounddown offset 2 div 2;
          addr_end = (ucast (roundup (ucast offset + bytes) 2 div 2 :: u64) :: u32);
          addr_offset = offset mod 2;
          addr_len = addr_end - addr_start
      in rk3568_transfer p addr_len addr_start addr_offset bytes tr)"

subsection \<open>The rk3588 engine\<close>

definition rk3588_otp_wait_status :: "platform \<Rightarrow> u32 \<Rightarrow> event list \<Rightarrow> int \<times> event list" where
  "rk3588_otp_wait_status p flag tr =
     (let (ret, tr) =
            readl_poll_timeout_atomic p RK3588_OTPC_INT_ST (\<lambda>status. status AND flag \<noteq> 0)
              1 OTPC_TIMEOUT tr
      in if ret \<noteq> 0 then (ret, tr)
         else (0, writel flag RK3588_OTPC_INT_ST tr))"

text \<open>The labels \<open>read_end\<close> and \<open>out\<close> of \<open>rk3588_otp_read\<close>.\<close>

definition rk3588_out :: "event list \<Rightarrow> event list" where
  "rk3588_out tr = kfree tr"

definition rk3588_read_end :: "event list \<Rightarrow> event list" where
  "rk3588_read_end tr = rk3588_out (clk_bulk_disable_unprepare tr)"

fun rk3588_read_loop ::
  "platform \<Rightarrow> nat \<Rightarrow> u32 \<Rightarrow> nat \<Rightarrow> u8 list \<Rightarrow> int \<Rightarrow> event list
     \<Rightarrow> int \<times> u8 list option \<times> event list"
where
  "rk3588_read_loop p 0 addr_start i buf ret tr = (ret, Some buf, tr)"
| "rk3588_read_loop p (Suc n) addr_start i buf ret tr =
     (let tr = writel (push_bit RK3588_ADDR_SHIFT addr_start
                        OR push_bit RK3588_BURST_SHIFT RK3588_BURST_NUM)
                 RK3588_OTPC_AUTO_CTRL tr;
          tr = writel RK3588_AUTO_EN RK3588_OTPC_AUTO_EN tr;
          (ret, tr) = rk3588_otp_wait_status p RK3588_RD_DONE tr
      in if ret < 0 then (ret, None, dev_err ''timeout during read setup'' tr)
         else let (out_value, tr) = readl p RK3588_OTPC_DOUT0 tr;
                  buf = memcpy_at buf i (le_bytes RK3588_NBYTES out_value)
              in rk3588_read_loop p n (addr_start + 1) (i + RK3588_NBYTES) buf ret tr)"

text \<open>
  \<open>rk3588_otp_read\<close> checks the range, clamps the length and computes the word range;
  \<open>rk3588_transfer\<close> is the rest of its body, from the allocation of the scratch buffer
  on, over the local variables.  \<open>otp->data->size\<close> is an \<open>int\<close>: it is converted to
  \<open>unsigned int\<close> for the comparison with \<open>offset\<close> and the subtraction, and sign-extended
  to \<open>size_t\<close> for the comparison with \<open>offset + bytes\<close>.
\<close>

definition rk3588_transfer ::
  "platform \<Rightarrow> u32 \<Rightarrow> u32 \<Rightarrow> u32 \<Rightarrow> u64 \<Rightarrow> event list \<Rightarrow> read_result"
where
  "rk3588_transfer p addr_len addr_start addr_offset bytes tr =
     (let (buf, tr) = kzalloc p (array3_size (unat addr_len) RK3588_NBYTES 1) tr
      in case buf of
           None \<Rightarrow> (Inr (- ENOMEM), [], tr)
         | Some buf \<Rightarrow>
             let (ret, tr) = clk_bulk_prepare_enable p tr
             in if ret < 0
                then (Inr ret, [], rk3588_out (dev_err ''failed to prepare/enable clks'' tr))
                else let (ret, res, tr) =
                           rk3588_read_loop p (unat addr_len) addr_start 0 buf ret tr
                     in case res of
                          None \<Rightarrow> (Inr ret, [], rk3588_read_end tr)
                        | Some buf \<Rightarrow>
                            if unat addr_offset + unat bytes \<le> length buf
                            then (Inr ret,
                                  take (unat bytes) (drop (unat addr_offset) buf),
                                  rk3588_read_end tr)
                            else (Inl Scratch_Overrun, [], tr))"

definition rk3588_otp_read ::
  "platform \<Rightarrow> rockchip_data \<Rightarrow> u32 \<Rightarrow> u64 \<Rightarrow> event list \<Rightarrow> read_result"
where
  "rk3588_otp_read p d offset bytes tr =
     (if offset \<ge> size_bytes d then (Inr (- ENOMEM), [], tr)
      else let bytes = (if ucast offset + bytes > (scast (size_bytes d) :: u64)
                        then ucast (size_bytes d - offset) else bytes);
               addr_start = rounddown offset 4 div 4;
               addr_end = (ucast (roundup (ucast offset + bytes) 4 div 4 :: u64) :: u32);
               addr_offset = offset mod 4;
               addr_len = addr_end - addr_start;
               addr_start = addr_start + RK3588_NO_SECURE_OFFSET
           in rk3588_transfer p addr_len addr_start addr_offset bytes tr)"

subsection \<open>The dispatcher\<close>

text \<open>The call \<open>otp->data->reg_read(context, offset, val, bytes)\<close>.\<close>

fun call_reg_read ::
  "reg_read_t \<Rightarrow> platform \<Rightarrow> rockchip_data \<Rightarrow> u32 \<Rightarrow> u64 \<Rightarrow> event list \<Rightarrow> read_result"
where
  "call_reg_read Px30_otp_read p d offset bytes tr = px30_otp_read p offset bytes tr"
| "call_reg_read Rk3568_otp_read p d offset bytes tr = rk3568_otp_read p offset bytes tr"
| "call_reg_read Rk3588_otp_read p d offset bytes tr = rk3588_otp_read p d offset bytes tr"

definition rockchip_otp_read ::
  "platform \<Rightarrow> rockchip_data option \<Rightarrow> u32 \<Rightarrow> u64 \<Rightarrow> event list \<Rightarrow> read_result"
where
  "rockchip_otp_read p data offset bytes tr =
     (let tr = tr @ [MutexLock]
      in case data of
           None \<Rightarrow> (Inr (- EINVAL), [], tr @ [MutexUnlock])
         | Some d \<Rightarrow>
             (case reg_read d of
                None \<Rightarrow> (Inr (- EINVAL), [], tr @ [MutexUnlock])
              | Some f \<Rightarrow>
                  (case call_reg_read f p d offset bytes tr of
                     (Inr ret, out, tr) \<Rightarrow> (Inr ret, out, tr @ [MutexUnlock])
                   | (Inl flt, out, tr) \<Rightarrow> (Inl flt, out, tr))))"

section \<open>Observations on a read\<close>

definition ret_of :: "read_result \<Rightarrow> fault + int" where
  "ret_of r = fst r"

definition delivered :: "read_result \<Rightarrow> u8 list" where
  "delivered r = fst (snd r)"

definition trace_of :: "read_result \<Rightarrow> event list" where
  "trace_of r = snd (snd r)"

text \<open>The values written to register \<open>a\<close>, oldest first, and the last of them.\<close>

fun writes_to :: "u32 \<Rightarrow> event list \<Rightarrow> u32 list" where
  "writes_to a [] = []"
| "writes_to a (Writel v b # tr) = (if b = a then v # writes_to a tr else writes_to a tr)"
| "writes_to a (e # tr) = writes_to a tr"

definition last_write :: "u32 \<Rightarrow> event list \<Rightarrow> u32 option" where
  "last_write a tr = (case rev (writes_to a tr) of [] \<Rightarrow> None | v # vs \<Rightarrow> Some v)"

text \<open>The values loaded from register \<open>a\<close>, by \<open>readl\<close> or \<open>readb\<close>, oldest first.\<close>

fun reads_from :: "u32 \<Rightarrow> event list \<Rightarrow> u32 list" where
  "reads_from a [] = []"
| "reads_from a (Readl b v # tr) = (if b = a then v # reads_from a tr else reads_from a tr)"
| "reads_from a (Readb b v # tr) =
     (if b = a then ucast v # reads_from a tr else reads_from a tr)"
| "reads_from a (e # tr) = reads_from a tr"

text \<open>The register accesses of a trace.\<close>

fun is_mmio :: "event \<Rightarrow> bool" where
  "is_mmio (Writel v a) = True"
| "is_mmio (Readl a v) = True"
| "is_mmio (Readb a v) = True"
| "is_mmio e = False"

definition mmio :: "event list \<Rightarrow> event list" where
  "mmio tr = filter is_mmio tr"

text \<open>The accesses to the user interface registers \<open>OTPC_USER_*\<close>.\<close>

definition user_reg :: "u32 \<Rightarrow> bool" where
  "user_reg a = (a \<in> {OTPC_USER_CTRL, OTPC_USER_ADDR, OTPC_USER_ENABLE, OTPC_USER_QP, OTPC_USER_Q})"

fun touches_user :: "event \<Rightarrow> bool" where
  "touches_user (Writel v a) = user_reg a"
| "touches_user (Readl a v) = user_reg a"
| "touches_user (Readb a v) = user_reg a"
| "touches_user e = False"

text \<open>The five writes of the SBPI command that sets the ECC mode to \<open>sentinel\<close>.\<close>

definition sbpi_sequence :: "u32 \<Rightarrow> event list" where
  "sbpi_sequence sentinel =
     [Writel 0xFF000200 OTPC_SBPI_CTRL,
      Writel 0xFFFF0001 OTPC_SBPI_CMD_VALID_PRE,
      Writel 0xFA OTPC_SBPI_CMD0_OFFSET,
      Writel sentinel OTPC_SBPI_CMD1_OFFSET,
      Writel 0x10001 OTPC_SBPI_CTRL]"

text \<open>The ECC verdict on a parity/status word, as the spec words it.\<close>

definition ecc_flagged :: "u32 \<Rightarrow> bool" where
  "ecc_flagged qp = (qp AND 0xC0 = 0xC0 \<or> qp AND 0x20 \<noteq> 0)"

subsection \<open>What a poll sees\<close>

text \<open>
  \<open>poll_history p a d k tr\<close> is the trace after \<open>k\<close> reads of register \<open>a\<close>, each followed
  by a delay of \<open>d\<close> microseconds, starting from \<open>tr\<close>; \<open>poll_value\<close> is the word the next
  read returns.  A poll that has not yet found its condition sees exactly these values, at
  times \<open>0, d, 2d, ...\<close>.
\<close>

primrec poll_history :: "platform \<Rightarrow> u32 \<Rightarrow> nat \<Rightarrow> nat \<Rightarrow> event list \<Rightarrow> event list" where
  "poll_history p a d 0 tr = tr"
| "poll_history p a d (Suc k) tr = poll_history p a d k (udelay d (snd (readl p a tr)))"

definition poll_value :: "platform \<Rightarrow> u32 \<Rightarrow> nat \<Rightarrow> nat \<Rightarrow> event list \<Rightarrow> u32" where
  "poll_value p a d k tr = readl_val p (poll_history p a d k tr) a"

text \<open>The status bits of \<open>flag\<close> stay clear at the reads \<open>0..n\<close> of a poll.\<close>

definition stays_clear :: "platform \<Rightarrow> u32 \<Rightarrow> u32 \<Rightarrow> nat \<Rightarrow> event list \<Rightarrow> bool" where
  "stays_clear p a flag n tr = (\<forall>k \<le> n. poll_value p a 1 k tr AND flag = 0)"

text \<open>All bits of \<open>flag\<close> are set in the word that one of the reads \<open>0..n\<close> of a poll returns.\<close>

definition asserts_within :: "platform \<Rightarrow> u32 \<Rightarrow> u32 \<Rightarrow> nat \<Rightarrow> event list \<Rightarrow> bool" where
  "asserts_within p a flag n tr = (\<exists>k \<le> n. poll_value p a 1 k tr AND flag = flag)"

subsection \<open>Resources held along a trace\<close>

text \<open>
  A monitor for the resources a read takes: the clock group, the reset line, the scratch
  buffer and the user interface selection.  A clock enable counts as taken unless it
  returned a negative value, a reset assert when it returned \<open>0\<close>, as the driver tests
  them.  The monitor rejects (\<open>None\<close>) a release of something not held, a second take of
  something held, and a clock disable while the user interface is still selected.
\<close>

record gates =
  clk_on :: bool
  rst_asserted :: bool
  scratch_live :: bool
  ui_selected :: bool

definition idle :: gates where
  "idle = \<lparr>clk_on = False, rst_asserted = False, scratch_live = False, ui_selected = False\<rparr>"

fun gate_step :: "gates \<Rightarrow> event \<Rightarrow> gates option" where
  "gate_step g (ClkEnable r) =
     (if r < 0 then Some g else if clk_on g then None else Some (g\<lparr>clk_on := True\<rparr>))"
| "gate_step g ClkDisable =
     (if clk_on g \<and> \<not> ui_selected g then Some (g\<lparr>clk_on := False\<rparr>) else None)"
| "gate_step g (RstAssert r) =
     (if r \<noteq> 0 then Some g else if rst_asserted g then None
      else Some (g\<lparr>rst_asserted := True\<rparr>))"
| "gate_step g (RstDeassert r) =
     (if rst_asserted g then Some (g\<lparr>rst_asserted := False\<rparr>) else None)"
| "gate_step g (Kzalloc n ok) =
     (if \<not> ok then Some g else if scratch_live g then None
      else Some (g\<lparr>scratch_live := True\<rparr>))"
| "gate_step g Kfree =
     (if scratch_live g then Some (g\<lparr>scratch_live := False\<rparr>) else None)"
| "gate_step g (Writel v a) =
     (if a = OTPC_USER_CTRL \<and> v = (OTPC_USE_USER OR OTPC_USE_USER_MASK)
      then (if ui_selected g then None else Some (g\<lparr>ui_selected := True\<rparr>))
      else if a = OTPC_USER_CTRL \<and> v = OTPC_USE_USER_MASK
      then (if ui_selected g then Some (g\<lparr>ui_selected := False\<rparr>) else None)
      else Some g)"
| "gate_step g e = Some g"

fun gate_from :: "gates option \<Rightarrow> event list \<Rightarrow> gates option" where
  "gate_from s [] = s"
| "gate_from s (e # tr) = gate_from (case s of None \<Rightarrow> None | Some g \<Rightarrow> gate_step g e) tr"

definition gate_run :: "event list \<Rightarrow> gates option" where
  "gate_run tr = gate_from (Some idle) tr"

definition released :: "event list \<Rightarrow> bool" where
  "released tr = (gate_run tr = Some idle)"

subsection \<open>The steps of one read\<close>

text \<open>
  Whether the hardware fails a read is a matter of the calls that read makes.
  \<open>along P h es\<close> holds when \<open>P\<close> holds of every event of \<open>es\<close>, each taken with the
  history before it, where \<open>es\<close> follows the history \<open>h\<close>.  For a call that was started
  with the trace \<open>tr\<close> and left the trace \<open>T\<close>, \<open>steps P tr T\<close> says so of the events the
  call appended to \<open>tr\<close>.
\<close>

fun along :: "(event list \<Rightarrow> event \<Rightarrow> bool) \<Rightarrow> event list \<Rightarrow> event list \<Rightarrow> bool" where
  "along P h [] = True"
| "along P h (e # es) = (P h e \<and> along P (h @ [e]) es)"

definition steps :: "(event list \<Rightarrow> event \<Rightarrow> bool) \<Rightarrow> event list \<Rightarrow> event list \<Rightarrow> bool" where
  "steps P tr T = along P tr (drop (length tr) T)"

text \<open>
  The command pulses of an engine, each with the status register and the done bit the
  driver waits for after it: the SBPI enable pulse and the FSM enable pulse of px30 and
  rk3568, the auto-enable pulse of rk3588.
\<close>

fun awaited :: "reg_read_t \<Rightarrow> event \<Rightarrow> (u32 \<times> u32) option" where
  "awaited Rk3588_otp_read (Writel v a) =
     (if a = RK3588_OTPC_AUTO_EN \<and> v = RK3588_AUTO_EN
      then Some (RK3588_OTPC_INT_ST, RK3588_RD_DONE) else None)"
| "awaited f (Writel v a) =
     (if a = OTPC_SBPI_CTRL \<and> v = (SBPI_ENABLE_MASK OR SBPI_ENABLE)
      then Some (OTPC_INT_STATUS, OTPC_SBPI_DONE)
      else if a = OTPC_USER_ENABLE \<and> v = (OTPC_USER_FSM_ENABLE OR OTPC_USER_FSM_ENABLE_MASK)
      then Some (OTPC_INT_STATUS, OTPC_USER_DONE) else None)"
| "awaited f e = None"

text \<open>
  A step of a read by engine \<open>f\<close> does not fail: a clock enable, a reset assert or
  deassert returned \<open>0\<close>; an allocation returned a buffer; after a command pulse the done
  bit does not stay clear at all the reads of the status wait that follows it; on
  rk3568, the parity/status word read back is not flagged by the ECC logic.
\<close>

fun step_ok :: "reg_read_t \<Rightarrow> platform \<Rightarrow> event list \<Rightarrow> event \<Rightarrow> bool" where
  "step_ok f p h (ClkEnable r) = (r = 0)"
| "step_ok f p h (RstAssert r) = (r = 0)"
| "step_ok f p h (RstDeassert r) = (r = 0)"
| "step_ok f p h (Kzalloc n ok) = ok"
| "step_ok f p h (Readl a v) = (\<not> (f = Rk3568_otp_read \<and> a = OTPC_USER_QP \<and> ecc_flagged v))"
| "step_ok f p h (Writel v a) =
     (case awaited f (Writel v a) of
        None \<Rightarrow> True
      | Some (s, flag) \<Rightarrow> \<not> stays_clear p s flag OTPC_TIMEOUT (h @ [Writel v a]))"
| "step_ok f p h e = True"

text \<open>
  No hardware step fails in the read by engine \<open>f\<close> that was started with the trace \<open>tr\<close>
  and left the trace \<open>T\<close>.
\<close>

definition no_step_fails :: "reg_read_t \<Rightarrow> platform \<Rightarrow> event list \<Rightarrow> event list \<Rightarrow> bool" where
  "no_step_fails f p tr T = steps (step_ok f p) tr T"

subsection \<open>Loads from a fuse image\<close>

text \<open>
  A load from the data register returns the fuse cells at the address that was programmed
  last before it.  On px30 and rk3568 the cell (byte, resp. 16-bit word) address is
  written to \<open>OTPC_USER_ADDR\<close> under the write mask of the upper half; on rk3588 the
  32-bit word address, counted from the start of the whole OTP, is written to the address
  field of \<open>RK3588_OTPC_AUTO_CTRL\<close> with a burst of one, and the image holds the non-secure
  region.
\<close>

fun load_ok :: "reg_read_t \<Rightarrow> u8 list \<Rightarrow> event list \<Rightarrow> event \<Rightarrow> bool" where
  "load_ok Px30_otp_read fuse h (Readb a v) =
     (a = OTPC_USER_Q \<longrightarrow>
        (\<forall>k < length fuse.
           last_write OTPC_USER_ADDR h = Some (of_nat k OR OTPC_USER_ADDR_MASK)
           \<longrightarrow> v = fuse ! k))"
| "load_ok Rk3568_otp_read fuse h (Readl a v) =
     (a = OTPC_USER_Q \<longrightarrow>
        (\<forall>w < length fuse. 2 * w + 2 \<le> length fuse
           \<longrightarrow> last_write OTPC_USER_ADDR h = Some (of_nat w OR OTPC_USER_ADDR_MASK)
           \<longrightarrow> le_bytes 2 v = take 2 (drop (2 * w) fuse)))"
| "load_ok Rk3588_otp_read fuse h (Readl a v) =
     (a = RK3588_OTPC_DOUT0 \<longrightarrow>
        (\<forall>w < length fuse. 4 * w + 4 \<le> length fuse
           \<longrightarrow> last_write RK3588_OTPC_AUTO_CTRL h
                 = Some (push_bit 16 (of_nat w + RK3588_NO_SECURE_OFFSET) OR push_bit 8 1)
           \<longrightarrow> le_bytes 4 v = take 4 (drop (4 * w) fuse)))"
| "load_ok f fuse h e = True"

text \<open>
  Every load from the data register in the read that was started with \<open>tr\<close> and left \<open>T\<close>
  returned the cells of \<open>fuse\<close>.
\<close>

definition loads_fuse :: "reg_read_t \<Rightarrow> u8 list \<Rightarrow> event list \<Rightarrow> event list \<Rightarrow> bool" where
  "loads_fuse f fuse tr T = steps (load_ok f fuse) tr T"

subsection \<open>Traces of a platform\<close>

text \<open>
  An event records what platform \<open>p\<close> answered at the history \<open>h\<close>; \<open>run p tr T\<close>: the trace
  \<open>T\<close> continues \<open>tr\<close> by calls that \<open>p\<close> answered.
\<close>

fun answers :: "platform \<Rightarrow> event list \<Rightarrow> event \<Rightarrow> bool" where
  "answers p h (Readl a v) = (v = readl_val p h a)"
| "answers p h (Readb a v) = (v = readb_val p h a)"
| "answers p h (ClkEnable r) = (r = clk_enable_ret p h)"
| "answers p h (RstAssert r) = (r = assert_ret p h)"
| "answers p h (RstDeassert r) = (r = deassert_ret p h)"
| "answers p h (Kzalloc n ok) = (ok = kzalloc_ok p h n)"
| "answers p h e = True"

definition run :: "platform \<Rightarrow> event list \<Rightarrow> event list \<Rightarrow> bool" where
  "run p tr T = (take (length tr) T = tr \<and> steps (answers p) tr T)"

text \<open>The native word size of an engine and the data register it loads from.\<close>

fun word_bytes :: "reg_read_t \<Rightarrow> nat" where
  "word_bytes Px30_otp_read = 1"
| "word_bytes Rk3568_otp_read = RK3568_NBYTES"
| "word_bytes Rk3588_otp_read = RK3588_NBYTES"


text \<open>
  The word range of a request as the spec gives it: the clamped length and the number of
  words between \<open>\<lfloor>offset / n\<rfloor>\<close> and \<open>\<lceil>(offset + len) / n\<rceil>\<close>.
\<close>

definition clamped_len :: "nat \<Rightarrow> nat \<Rightarrow> nat \<Rightarrow> nat" where
  "clamped_len sz offset len = (if offset + len > sz then sz - offset else len)"

definition word_count :: "nat \<Rightarrow> nat \<Rightarrow> nat \<Rightarrow> nat" where
  "word_count n offset len = (offset + len + (n - 1)) div n - offset div n"

subsection \<open>Simulated controllers\<close>

text \<open>
  Three platforms for running the engines: clocks, reset and allocator always succeed,
  the done bits of the status register read as set, and the data register returns the
  cells of \<open>fuse\<close> at the address programmed last (cells past the image read as \<open>0\<close>).  The
  rk3568 one takes the parity/status word of each word address as a parameter.
\<close>

definition cell :: "u8 list \<Rightarrow> nat \<Rightarrow> u8" where
  "cell fuse k = (if k < length fuse then fuse ! k else 0)"

definition sim_px30 :: "u8 list \<Rightarrow> platform" where
  "sim_px30 fuse =
     \<lparr>readl_val = (\<lambda>tr a. if a = OTPC_INT_STATUS then OTPC_SBPI_DONE OR OTPC_USER_DONE else 0),
      readb_val = (\<lambda>tr a. case last_write OTPC_USER_ADDR tr of
                             None \<Rightarrow> 0
                           | Some v \<Rightarrow>
                               if a = OTPC_USER_Q then cell fuse (unat (v AND 0xFFFF)) else 0),
      clk_enable_ret = (\<lambda>tr. 0), assert_ret = (\<lambda>tr. 0), deassert_ret = (\<lambda>tr. 0),
      kzalloc_ok = (\<lambda>tr n. True)\<rparr>"

definition sim_rk3568 :: "u8 list \<Rightarrow> (nat \<Rightarrow> u32) \<Rightarrow> platform" where
  "sim_rk3568 fuse qp =
     \<lparr>readl_val = (\<lambda>tr a.
        if a = OTPC_INT_STATUS then OTPC_SBPI_DONE OR OTPC_USER_DONE
        else case last_write OTPC_USER_ADDR tr of
               None \<Rightarrow> 0
             | Some v \<Rightarrow>
                 let w = unat (v AND 0xFFFF)
                 in if a = OTPC_USER_QP then qp w
                    else if a = OTPC_USER_Q
                    then ucast (cell fuse (2 * w)) OR push_bit 8 (ucast (cell fuse (2 * w + 1)))
                    else 0),
      readb_val = (\<lambda>tr a. 0),
      clk_enable_ret = (\<lambda>tr. 0), assert_ret = (\<lambda>tr. 0), deassert_ret = (\<lambda>tr. 0),
      kzalloc_ok = (\<lambda>tr n. True)\<rparr>"

definition sim_rk3588 :: "u8 list \<Rightarrow> platform" where
  "sim_rk3588 fuse =
     \<lparr>readl_val = (\<lambda>tr a.
        if a = RK3588_OTPC_INT_ST then RK3588_RD_DONE
        else case last_write RK3588_OTPC_AUTO_CTRL tr of
               None \<Rightarrow> 0
             | Some v \<Rightarrow>
                 let w = unat (drop_bit 16 v) - unat RK3588_NO_SECURE_OFFSET
                 in if a = RK3588_OTPC_DOUT0
                    then ucast (cell fuse (4 * w))
                         OR push_bit 8 (ucast (cell fuse (4 * w + 1)))
                         OR push_bit 16 (ucast (cell fuse (4 * w + 2)))
                         OR push_bit 24 (ucast (cell fuse (4 * w + 3)))
                    else 0),
      readb_val = (\<lambda>tr a. 0),
      clk_enable_ret = (\<lambda>tr. 0), assert_ret = (\<lambda>tr. 0), deassert_ret = (\<lambda>tr. 0),
      kzalloc_ok = (\<lambda>tr n. True)\<rparr>"

text \<open>A px30 platform whose every 32-bit load returns \<open>v\<close>: a status word that never changes.\<close>

definition stuck_status :: "u32 \<Rightarrow> platform" where
  "stuck_status v = (sim_px30 [])\<lparr>readl_val := (\<lambda>tr a. v)\<rparr>"

text \<open>A px30 platform whose clock group cannot be enabled.\<close>

definition dead_clocks :: platform where
  "dead_clocks = (sim_px30 [])\<lparr>clk_enable_ret := (\<lambda>tr. - EIO)\<rparr>"

text \<open>
  A controller with sticky done bits: a done bit is set by the command pulse it belongs
  to and cleared by writing it back to the status register.  \<open>handshake f p\<close> is the
  platform \<open>p\<close> with the status register of engine \<open>f\<close> replaced by such a one.
\<close>

fun status_reg :: "reg_read_t \<Rightarrow> u32" where
  "status_reg Px30_otp_read = OTPC_INT_STATUS"
| "status_reg Rk3568_otp_read = OTPC_INT_STATUS"
| "status_reg Rk3588_otp_read = RK3588_OTPC_INT_ST"

definition done_step :: "reg_read_t \<Rightarrow> event \<Rightarrow> u32 \<Rightarrow> u32" where
  "done_step f e st =
     (case awaited f e of
        Some (s, flag) \<Rightarrow> st OR flag
      | None \<Rightarrow> (case e of
                  Writel v a \<Rightarrow> if a = status_reg f then st AND NOT v else st
                | _ \<Rightarrow> st))"

definition done_bits :: "reg_read_t \<Rightarrow> event list \<Rightarrow> u32" where
  "done_bits f tr = fold (done_step f) tr 0"

definition handshake :: "reg_read_t \<Rightarrow> platform \<Rightarrow> platform" where
  "handshake f p =
     p\<lparr>readl_val := (\<lambda>tr a. if a = status_reg f then done_bits f tr else readl_val p tr a)\<rparr>"

section \<open>Properties\<close>

subsection \<open>Traces\<close>

lemma writes_to_append [simp]: "writes_to a (xs @ ys) = writes_to a xs @ writes_to a ys"
  by (induction a xs rule: writes_to.induct) auto

lemma reads_from_append [simp]: "reads_from a (xs @ ys) = reads_from a xs @ reads_from a ys"
  by (induction a xs rule: reads_from.induct) auto

lemma last_write_Nil [simp]: "last_write a [] = None"
  by (simp add: last_write_def)

lemma last_write_Cons [simp]:
  "last_write a (e # tr) =
     (case last_write a tr of
        Some v \<Rightarrow> Some v
      | None \<Rightarrow> (case e of Writel v b \<Rightarrow> if b = a then Some v else None | _ \<Rightarrow> None))"
  by (cases e; cases "rev (writes_to a tr)") (simp_all add: last_write_def)

lemma last_write_append [simp]:
  "last_write a (xs @ ys) = (case last_write a ys of None \<Rightarrow> last_write a xs | Some v \<Rightarrow> Some v)"
  by (cases "rev (writes_to a ys)") (simp_all add: last_write_def)

lemma gate_from_append: "gate_from s (xs @ ys) = gate_from (gate_from s xs) ys"
  by (induction xs arbitrary: s) simp_all

lemma gate_from_None [simp]: "gate_from None tr = None"
  by (induction tr) simp_all

lemma gate_run_append [simp]: "gate_run (xs @ ys) = gate_from (gate_run xs) ys"
  by (simp add: gate_run_def gate_from_append)

lemma mmio_append [simp]: "mmio (xs @ ys) = mmio xs @ mmio ys"
  by (simp add: mmio_def)

subsection \<open>A request that begins past the fuse size\<close>

text \<open>
  C4.  A read of the rk3588 engine whose offset is not below the fuse size returns
  \<open>-ENOMEM\<close>, the code this driver reports an out-of-range request with, at once: the
  trace is the one it was called with, so no register was accessed, no clock enabled and
  no scratch buffer allocated, and nothing is stored to the caller's buffer.
\<close>

theorem rk3588_out_of_range:
  "size_bytes d \<le> offset \<Longrightarrow> rk3588_otp_read p d offset bytes tr = (Inr (- ENOMEM), [], tr)"
  by (simp add: rk3588_otp_read_def)

theorem rk3588_out_of_range_witness:
  "size_bytes rk3588_data \<le> 0x400
   \<and> rk3588_otp_read (sim_rk3588 []) rk3588_data 0x400 4 [] = (Inr (- ENOMEM), [], [])"
  using rk3588_out_of_range [of rk3588_data "0x400" "sim_rk3588 []" 4 "[]"]
  by (simp add: rk3588_data_def)

subsection \<open>Polling a status word\<close>

lemma readl_eq: "readl p a tr = (readl_val p tr a, tr @ [Readl a (readl_val p tr a)])"
  by (simp add: readl_def Let_def)

lemma readb_eq: "readb p a tr = (readb_val p tr a, tr @ [Readb a (readb_val p tr a)])"
  by (simp add: readb_def Let_def)

lemma poll_value_Suc:
  "poll_value p a d (Suc k) tr = poll_value p a d k (udelay d (snd (readl p a tr)))"
  by (simp add: poll_value_def)

lemma poll_loop_timeout:
  "\<forall>k \<le> n. \<not> cond (poll_value p a d k tr) \<Longrightarrow>
   poll_loop p a cond d n tr
     = (- ETIMEDOUT, poll_history p a d n tr @ [Readl a (poll_value p a d n tr)])"
proof (induction n arbitrary: tr)
  case 0
  then show ?case by (simp add: poll_value_def readl_eq)
next
  case (Suc n)
  have first: "\<not> cond (readl_val p tr a)"
    using Suc.prems [rule_format, of 0] by (simp add: poll_value_def)
  have rest: "\<forall>k \<le> n. \<not> cond (poll_value p a d k (udelay d (snd (readl p a tr))))"
    using Suc.prems by (auto simp: poll_value_Suc [symmetric])
  show ?case
    using first Suc.IH [OF rest] by (simp add: readl_eq poll_value_Suc Let_def)
qed

lemma poll_loop_found:
  "k \<le> n \<Longrightarrow> cond (poll_value p a d k tr) \<Longrightarrow> \<forall>j < k. \<not> cond (poll_value p a d j tr) \<Longrightarrow>
   poll_loop p a cond d n tr = (0, poll_history p a d k tr @ [Readl a (poll_value p a d k tr)])"
proof (induction n arbitrary: tr k)
  case 0
  then show ?case by (simp add: poll_value_def readl_eq)
next
  case (Suc n)
  show ?case
  proof (cases k)
    case 0
    then show ?thesis using Suc.prems by (simp add: poll_value_def readl_eq)
  next
    case (Suc k')
    have first: "\<not> cond (readl_val p tr a)"
      using Suc.prems(3) [rule_format, of 0] Suc by (simp add: poll_value_def)
    have "poll_loop p a cond d n (udelay d (snd (readl p a tr)))
           = (0, poll_history p a d k' (udelay d (snd (readl p a tr)))
                 @ [Readl a (poll_value p a d k' (udelay d (snd (readl p a tr))))])"
    proof (rule Suc.IH)
      show "k' \<le> n" using Suc.prems(1) Suc by simp
      show "cond (poll_value p a d k' (udelay d (snd (readl p a tr))))"
        using Suc.prems(2) Suc by (simp add: poll_value_Suc)
      show "\<forall>j<k'. \<not> cond (poll_value p a d j (udelay d (snd (readl p a tr))))"
        using Suc.prems(3) Suc by (auto simp: poll_value_Suc [symmetric])
    qed
    then show ?thesis
      using first Suc by (simp add: readl_eq poll_value_Suc Let_def)
  qed
qed

lemma first_set:
  fixes n :: nat
  shows "\<not> (\<forall>k \<le> n. \<not> P k) \<Longrightarrow> \<exists>k \<le> n. P k \<and> (\<forall>j < k. \<not> P j)"
proof -
  assume "\<not> (\<forall>k \<le> n. \<not> P k)"
  then obtain k where k: "k \<le> n" "P k" by blast
  define m where "m = (LEAST k. P k)"
  have "P m" unfolding m_def using k(2) by (rule LeastI [of P k])
  moreover have "m \<le> k" unfolding m_def using k(2) by (rule Least_le [of P k])
  moreover have "\<forall>j < m. \<not> P j" unfolding m_def using not_less_Least by blast
  ultimately show ?thesis using k(1) by (meson le_trans)
qed

lemma poll_cases:
  "(if \<forall>k \<le> n. \<not> cond (poll_value p a d k tr)
    then poll_loop p a cond d n tr
           = (- ETIMEDOUT, poll_history p a d n tr @ [Readl a (poll_value p a d n tr)])
    else \<exists>k \<le> n. (\<forall>j < k. \<not> cond (poll_value p a d j tr)) \<and> cond (poll_value p a d k tr)
           \<and> poll_loop p a cond d n tr
               = (0, poll_history p a d k tr @ [Readl a (poll_value p a d k tr)]))"
proof (cases "\<forall>k \<le> n. \<not> cond (poll_value p a d k tr)")
  case True
  then show ?thesis using poll_loop_timeout [of n cond p a d tr] by simp
next
  case False
  from first_set [OF this] obtain k where k: "k \<le> n" "cond (poll_value p a d k tr)"
    "\<forall>j < k. \<not> cond (poll_value p a d j tr)"
    by blast
  from poll_loop_found [OF k] False k show ?thesis by auto
qed

lemma px30_wait_cases:
  "(if stays_clear p OTPC_INT_STATUS flag OTPC_TIMEOUT tr
    then px30_otp_wait_status p flag tr
           = (- ETIMEDOUT,
              poll_history p OTPC_INT_STATUS 1 OTPC_TIMEOUT tr
              @ [Readl OTPC_INT_STATUS (poll_value p OTPC_INT_STATUS 1 OTPC_TIMEOUT tr)])
    else \<exists>k \<le> OTPC_TIMEOUT.
           (\<forall>j < k. poll_value p OTPC_INT_STATUS 1 j tr AND flag = 0)
         \<and> poll_value p OTPC_INT_STATUS 1 k tr AND flag \<noteq> 0
         \<and> px30_otp_wait_status p flag tr
             = (0, poll_history p OTPC_INT_STATUS 1 k tr
                   @ [Readl OTPC_INT_STATUS (poll_value p OTPC_INT_STATUS 1 k tr),
                      Writel flag OTPC_INT_STATUS]))"
proof (cases "stays_clear p OTPC_INT_STATUS flag OTPC_TIMEOUT tr")
  case True
  then have "\<forall>k \<le> OTPC_TIMEOUT. \<not> (poll_value p OTPC_INT_STATUS 1 k tr AND flag \<noteq> 0)"
    by (simp add: stays_clear_def)
  from poll_loop_timeout [of OTPC_TIMEOUT "\<lambda>status. status AND flag \<noteq> 0", OF this] True
  show ?thesis
    by (simp add: px30_otp_wait_status_def readl_poll_timeout_atomic_def del: One_nat_def)
next
  case False
  then have "\<not> (\<forall>k \<le> OTPC_TIMEOUT. \<not> (poll_value p OTPC_INT_STATUS 1 k tr AND flag \<noteq> 0))"
    by (simp add: stays_clear_def)
  from first_set [OF this] obtain k where k: "k \<le> OTPC_TIMEOUT"
    "poll_value p OTPC_INT_STATUS 1 k tr AND flag \<noteq> 0"
    "\<forall>j < k. \<not> (poll_value p OTPC_INT_STATUS 1 j tr AND flag \<noteq> 0)"
    by blast
  from poll_loop_found [of k OTPC_TIMEOUT "\<lambda>status. status AND flag \<noteq> 0", OF k]
  have "px30_otp_wait_status p flag tr
          = (0, poll_history p OTPC_INT_STATUS 1 k tr
                @ [Readl OTPC_INT_STATUS (poll_value p OTPC_INT_STATUS 1 k tr),
                   Writel flag OTPC_INT_STATUS])"
    by (simp add: px30_otp_wait_status_def readl_poll_timeout_atomic_def writel_def
          del: One_nat_def)
  with False k show ?thesis by auto
qed

lemma rk3588_wait_cases:
  "(if stays_clear p RK3588_OTPC_INT_ST flag OTPC_TIMEOUT tr
    then rk3588_otp_wait_status p flag tr
           = (- ETIMEDOUT,
              poll_history p RK3588_OTPC_INT_ST 1 OTPC_TIMEOUT tr
              @ [Readl RK3588_OTPC_INT_ST (poll_value p RK3588_OTPC_INT_ST 1 OTPC_TIMEOUT tr)])
    else \<exists>k \<le> OTPC_TIMEOUT.
           (\<forall>j < k. poll_value p RK3588_OTPC_INT_ST 1 j tr AND flag = 0)
         \<and> poll_value p RK3588_OTPC_INT_ST 1 k tr AND flag \<noteq> 0
         \<and> rk3588_otp_wait_status p flag tr
             = (0, poll_history p RK3588_OTPC_INT_ST 1 k tr
                   @ [Readl RK3588_OTPC_INT_ST (poll_value p RK3588_OTPC_INT_ST 1 k tr),
                      Writel flag RK3588_OTPC_INT_ST]))"
proof (cases "stays_clear p RK3588_OTPC_INT_ST flag OTPC_TIMEOUT tr")
  case True
  then have "\<forall>k \<le> OTPC_TIMEOUT. \<not> (poll_value p RK3588_OTPC_INT_ST 1 k tr AND flag \<noteq> 0)"
    by (simp add: stays_clear_def)
  from poll_loop_timeout [of OTPC_TIMEOUT "\<lambda>status. status AND flag \<noteq> 0", OF this] True
  show ?thesis
    by (simp add: rk3588_otp_wait_status_def readl_poll_timeout_atomic_def del: One_nat_def)
next
  case False
  then have "\<not> (\<forall>k \<le> OTPC_TIMEOUT. \<not> (poll_value p RK3588_OTPC_INT_ST 1 k tr AND flag \<noteq> 0))"
    by (simp add: stays_clear_def)
  from first_set [OF this] obtain k where k: "k \<le> OTPC_TIMEOUT"
    "poll_value p RK3588_OTPC_INT_ST 1 k tr AND flag \<noteq> 0"
    "\<forall>j < k. \<not> (poll_value p RK3588_OTPC_INT_ST 1 j tr AND flag \<noteq> 0)"
    by blast
  from poll_loop_found [of k OTPC_TIMEOUT "\<lambda>status. status AND flag \<noteq> 0", OF k]
  have "rk3588_otp_wait_status p flag tr
          = (0, poll_history p RK3588_OTPC_INT_ST 1 k tr
                @ [Readl RK3588_OTPC_INT_ST (poll_value p RK3588_OTPC_INT_ST 1 k tr),
                   Writel flag RK3588_OTPC_INT_ST])"
    by (simp add: rk3588_otp_wait_status_def readl_poll_timeout_atomic_def writel_def
          del: One_nat_def)
  with False k show ?thesis by auto
qed

lemma single_bit_test:
  fixes v :: u32
  assumes "n < 32"
  shows "(v AND push_bit n 1 \<noteq> 0) = (v AND push_bit n 1 = push_bit n 1)"
proof -
  have "v AND push_bit n 1 = (if bit v n then push_bit n 1 else 0)"
    by (rule bit_eqI) (auto simp: bit_simps)
  moreover have "bit (push_bit n 1 :: u32) n"
    using assms by (simp add: bit_simps)
  then have "(push_bit n 1 :: u32) \<noteq> 0"
    using assms by auto
  ultimately show ?thesis by auto
qed

lemma stays_clear_iff:
  assumes "flag = push_bit n 1" and "n < 32"
  shows "stays_clear p a flag m tr = (\<not> asserts_within p a flag m tr)"
  using single_bit_test [OF assms(2)]
  unfolding stays_clear_def asserts_within_def assms(1) by metis

text \<open>
  C7.  The status wait of both controller families is only ever called with a mask of one
  bit (\<open>BIT(1)\<close> or \<open>BIT(2)\<close>).  For such a mask it reads the status word at
  \<open>0, 1, ..., 10000\<close> microseconds, with a delay of 1 microsecond between two reads, until
  a read returns a word with \<open>value AND mask = mask\<close>.  If the bit asserts at one of these
  reads, the wait stops at the first such read \<open>k\<close>, writes the mask back to the same
  status register and returns \<open>0\<close>; if it asserts at none of them, the wait returns
  \<open>-ETIMEDOUT\<close> after the last read and writes nothing.  So it times out if and only if
  the bit does not assert within the cap.  (The code tests \<open>status AND flag \<noteq> 0\<close>, which
  by \<open>single_bit_test\<close> is the same test for a mask of one bit.)
\<close>

theorem wait_status_poll:
  assumes "flag = push_bit n 1" and "n < 32"
  shows "(if asserts_within p OTPC_INT_STATUS flag OTPC_TIMEOUT tr
          then \<exists>k \<le> OTPC_TIMEOUT.
                 (\<forall>j < k. poll_value p OTPC_INT_STATUS 1 j tr AND flag \<noteq> flag)
               \<and> poll_value p OTPC_INT_STATUS 1 k tr AND flag = flag
               \<and> px30_otp_wait_status p flag tr
                   = (0, poll_history p OTPC_INT_STATUS 1 k tr
                         @ [Readl OTPC_INT_STATUS (poll_value p OTPC_INT_STATUS 1 k tr),
                            Writel flag OTPC_INT_STATUS])
          else px30_otp_wait_status p flag tr
                 = (- ETIMEDOUT,
                    poll_history p OTPC_INT_STATUS 1 OTPC_TIMEOUT tr
                    @ [Readl OTPC_INT_STATUS (poll_value p OTPC_INT_STATUS 1 OTPC_TIMEOUT tr)]))
       \<and> (if asserts_within p RK3588_OTPC_INT_ST flag OTPC_TIMEOUT tr
          then \<exists>k \<le> OTPC_TIMEOUT.
                 (\<forall>j < k. poll_value p RK3588_OTPC_INT_ST 1 j tr AND flag \<noteq> flag)
               \<and> poll_value p RK3588_OTPC_INT_ST 1 k tr AND flag = flag
               \<and> rk3588_otp_wait_status p flag tr
                   = (0, poll_history p RK3588_OTPC_INT_ST 1 k tr
                         @ [Readl RK3588_OTPC_INT_ST (poll_value p RK3588_OTPC_INT_ST 1 k tr),
                            Writel flag RK3588_OTPC_INT_ST])
          else rk3588_otp_wait_status p flag tr
                 = (- ETIMEDOUT,
                    poll_history p RK3588_OTPC_INT_ST 1 OTPC_TIMEOUT tr
                    @ [Readl RK3588_OTPC_INT_ST
                         (poll_value p RK3588_OTPC_INT_ST 1 OTPC_TIMEOUT tr)]))"
proof -
  have t: "(v AND flag = 0) = (v AND flag \<noteq> flag)" for v :: u32
    using single_bit_test [OF assms(2), of v] unfolding assms(1) by blast
  show ?thesis
    using px30_wait_cases [of p flag tr] rk3588_wait_cases [of p flag tr]
    unfolding stays_clear_iff [OF assms] t
    by (auto split: if_splits)
qed

theorem wait_status_poll_witness:
  "OTPC_USER_DONE = push_bit 2 1
   \<and> \<not> asserts_within (stuck_status 0) OTPC_INT_STATUS OTPC_USER_DONE OTPC_TIMEOUT []
   \<and> fst (px30_otp_wait_status (stuck_status 0) OTPC_USER_DONE []) = - ETIMEDOUT
   \<and> RK3588_RD_DONE = push_bit 1 1
   \<and> asserts_within (sim_rk3588 []) RK3588_OTPC_INT_ST RK3588_RD_DONE OTPC_TIMEOUT []
   \<and> rk3588_otp_wait_status (sim_rk3588 []) RK3588_RD_DONE []
       = (0, [Readl RK3588_OTPC_INT_ST 2, Writel 2 RK3588_OTPC_INT_ST])"
proof -
  have clear: "\<not> asserts_within (stuck_status 0) OTPC_INT_STATUS OTPC_USER_DONE OTPC_TIMEOUT []"
    by (simp add: asserts_within_def poll_value_def stuck_status_def)
  have v0: "poll_value (sim_rk3588 []) RK3588_OTPC_INT_ST 1 0 [] = 2"
    by (simp add: poll_value_def sim_rk3588_def)
  then have set: "asserts_within (sim_rk3588 []) RK3588_OTPC_INT_ST RK3588_RD_DONE OTPC_TIMEOUT []"
    unfolding asserts_within_def by (intro exI [of _ 0]) simp
  from wait_status_poll [of RK3588_RD_DONE 1 "sim_rk3588 []" "[]"] set
  obtain k where k: "\<forall>j < k. poll_value (sim_rk3588 []) RK3588_OTPC_INT_ST 1 j [] AND 2 \<noteq> 2"
    and r: "rk3588_otp_wait_status (sim_rk3588 []) RK3588_RD_DONE []
              = (0, poll_history (sim_rk3588 []) RK3588_OTPC_INT_ST 1 k []
                    @ [Readl RK3588_OTPC_INT_ST (poll_value (sim_rk3588 []) RK3588_OTPC_INT_ST 1 k []),
                       Writel 2 RK3588_OTPC_INT_ST])"
    by auto
  have "k = 0"
    using k v0 by (cases k) auto
  then have ok: "rk3588_otp_wait_status (sim_rk3588 []) RK3588_RD_DONE []
                   = (0, [Readl RK3588_OTPC_INT_ST 2, Writel 2 RK3588_OTPC_INT_ST])"
    using r v0 by simp
  show ?thesis
    using clear set ok wait_status_poll [of OTPC_USER_DONE 2 "stuck_status 0" "[]"]
    by simp
qed

subsection \<open>What a status wait leaves unchanged\<close>

lemma ret_of_simp [simp]: "ret_of (r, out, tr) = r"
  by (simp add: ret_of_def)

lemma delivered_simp [simp]: "delivered (r, out, tr) = out"
  by (simp add: delivered_def)

lemma trace_of_simp [simp]: "trace_of (r, out, tr) = tr"
  by (simp add: trace_of_def)

lemma poll_loop_obs:
  assumes "\<And>tr v. obs (tr @ [Readl a v]) = obs tr" and "\<And>tr. obs (tr @ [Udelay d]) = obs tr"
  shows "obs (snd (poll_loop p a cond d n tr)) = obs tr"
  by (induction n arbitrary: tr) (simp_all add: readl_eq udelay_def assms del: append_assoc)

lemma px30_wait_obs:
  assumes "\<And>tr v. obs (tr @ [Readl OTPC_INT_STATUS v]) = obs tr"
    and "\<And>tr. obs (tr @ [Udelay 1]) = obs tr"
    and "\<And>tr. obs (tr @ [Writel flag OTPC_INT_STATUS]) = obs tr"
  shows "obs (snd (px30_otp_wait_status p flag tr)) = obs tr"
  using poll_loop_obs [of obs OTPC_INT_STATUS 1 p "\<lambda>status. status AND flag \<noteq> 0" OTPC_TIMEOUT tr]
  by (simp add: px30_otp_wait_status_def readl_poll_timeout_atomic_def writel_def split_def Let_def
        assms del: One_nat_def)

lemma rk3588_wait_obs:
  assumes "\<And>tr v. obs (tr @ [Readl RK3588_OTPC_INT_ST v]) = obs tr"
    and "\<And>tr. obs (tr @ [Udelay 1]) = obs tr"
    and "\<And>tr. obs (tr @ [Writel flag RK3588_OTPC_INT_ST]) = obs tr"
  shows "obs (snd (rk3588_otp_wait_status p flag tr)) = obs tr"
  using poll_loop_obs [of obs RK3588_OTPC_INT_ST 1 p "\<lambda>status. status AND flag \<noteq> 0" OTPC_TIMEOUT tr]
  by (simp add: rk3588_otp_wait_status_def readl_poll_timeout_atomic_def writel_def split_def Let_def
        assms del: One_nat_def)

lemma px30_wait_writes_to [simp]:
  "a \<noteq> OTPC_INT_STATUS \<Longrightarrow> writes_to a (snd (px30_otp_wait_status p flag tr)) = writes_to a tr"
  by (rule px30_wait_obs) simp_all

lemma px30_wait_reads_from [simp]:
  "a \<noteq> OTPC_INT_STATUS \<Longrightarrow> reads_from a (snd (px30_otp_wait_status p flag tr)) = reads_from a tr"
  by (rule px30_wait_obs) simp_all

lemma px30_wait_last_write [simp]:
  "a \<noteq> OTPC_INT_STATUS \<Longrightarrow> last_write a (snd (px30_otp_wait_status p flag tr)) = last_write a tr"
  by (simp add: last_write_def)

lemma px30_wait_gate_run [simp]:
  "gate_run (snd (px30_otp_wait_status p flag tr)) = gate_run tr"
  by (rule px30_wait_obs) (simp_all split: option.splits)

lemma rk3588_wait_writes_to [simp]:
  "a \<noteq> RK3588_OTPC_INT_ST \<Longrightarrow> writes_to a (snd (rk3588_otp_wait_status p flag tr)) = writes_to a tr"
  by (rule rk3588_wait_obs) simp_all

lemma rk3588_wait_reads_from [simp]:
  "a \<noteq> RK3588_OTPC_INT_ST \<Longrightarrow> reads_from a (snd (rk3588_otp_wait_status p flag tr)) = reads_from a tr"
  by (rule rk3588_wait_obs) simp_all

lemma rk3588_wait_last_write [simp]:
  "a \<noteq> RK3588_OTPC_INT_ST \<Longrightarrow> last_write a (snd (rk3588_otp_wait_status p flag tr)) = last_write a tr"
  by (simp add: last_write_def)

lemma rk3588_wait_gate_run [simp]:
  "gate_run (snd (rk3588_otp_wait_status p flag tr)) = gate_run tr"
  by (rule rk3588_wait_obs) (simp_all split: option.splits)

subsection \<open>Resources are released\<close>

lemma reset_gate_run:
  "gate_run tr = Some g \<Longrightarrow> \<not> rst_asserted g \<Longrightarrow> gate_run (snd (rockchip_otp_reset p tr)) = Some g"
  by (cases g)
     (simp add: rockchip_otp_reset_def reset_control_assert_def reset_control_deassert_def
        udelay_def dev_err_def Let_def)

lemma ecc_enable_gate_run [simp]:
  "gate_run (snd (px30_otp_ecc_enable p enable tr)) = gate_run tr"
  by (simp add: px30_otp_ecc_enable_def writel_def dev_err_def split_def Let_def
        split: option.splits)

lemma px30_read_loop_gate_run [simp]:
  "gate_run (snd (snd (px30_read_loop p n offset ret out tr))) = gate_run tr"
  by (induction n arbitrary: offset ret out tr)
     (simp_all add: writel_def dev_err_def readb_eq split_def Let_def split: option.splits)

lemma rk3568_read_loop_gate_run [simp]:
  "gate_run (snd (snd (rk3568_read_loop p n addr_start i buf ret tr))) = gate_run tr"
  by (induction n arbitrary: addr_start i buf ret tr)
     (simp_all add: writel_def dev_err_def readl_eq split_def Let_def split: option.splits)

lemma rk3588_read_loop_gate_run [simp]:
  "gate_run (snd (snd (rk3588_read_loop p n addr_start i buf ret tr))) = gate_run tr"
  by (induction n arbitrary: addr_start i buf ret tr)
     (simp_all add: writel_def dev_err_def readl_eq split_def Let_def split: option.splits)

lemma px30_released:
  "released tr \<Longrightarrow> released (trace_of (px30_otp_read p offset bytes tr))"
  by (simp add: released_def trace_of_def px30_otp_read_def px30_read_end_def
        px30_disable_clks_def clk_bulk_prepare_enable_def clk_bulk_disable_unprepare_def
        writel_def udelay_def dev_err_def split_def Let_def idle_def reset_gate_run)

lemma rk3568_transfer_released:
  "ret_of (rk3568_transfer p addr_len addr_start addr_offset bytes tr) \<noteq> Inl Scratch_Overrun
   \<Longrightarrow> released tr
   \<Longrightarrow> released (trace_of (rk3568_transfer p addr_len addr_start addr_offset bytes tr))"
  by (auto simp: released_def trace_of_def ret_of_def rk3568_transfer_def rk3568_read_end_def
        rk3568_disable_clks_def rk3568_out_def kzalloc_def kfree_def
        clk_bulk_prepare_enable_def clk_bulk_disable_unprepare_def
        writel_def udelay_def dev_err_def split_def Let_def idle_def reset_gate_run
        split: option.splits if_splits)

lemma rk3568_released:
  "ret_of (rk3568_otp_read p offset bytes tr) \<noteq> Inl Scratch_Overrun \<Longrightarrow> released tr \<Longrightarrow>
   released (trace_of (rk3568_otp_read p offset bytes tr))"
  by (simp add: rk3568_otp_read_def Let_def rk3568_transfer_released)

lemma rk3588_transfer_released:
  "ret_of (rk3588_transfer p addr_len addr_start addr_offset bytes tr) \<noteq> Inl Scratch_Overrun
   \<Longrightarrow> released tr
   \<Longrightarrow> released (trace_of (rk3588_transfer p addr_len addr_start addr_offset bytes tr))"
  by (auto simp: released_def trace_of_def ret_of_def rk3588_transfer_def
        rk3588_read_end_def rk3588_out_def kzalloc_def kfree_def
        clk_bulk_prepare_enable_def clk_bulk_disable_unprepare_def
        writel_def udelay_def dev_err_def split_def Let_def idle_def
        split: option.splits if_splits)

lemma rk3588_released:
  "ret_of (rk3588_otp_read p d offset bytes tr) \<noteq> Inl Scratch_Overrun \<Longrightarrow> released tr \<Longrightarrow>
   released (trace_of (rk3588_otp_read p d offset bytes tr))"
  by (cases "size_bytes d \<le> offset")
     (simp_all add: rk3588_otp_read_def Let_def rk3588_transfer_released)

subsection \<open>Word ranges\<close>

lemma round_up_ge:
  fixes x n m :: nat
  assumes "n = Suc m"
  shows "x \<le> n * ((x + m) div n)"
proof -
  define q where "q = (x + m) div n"
  define r where "r = (x + m) mod n"
  have "r < n" unfolding r_def using assms by simp
  moreover have "x + m = n * q + r" unfolding q_def r_def by simp
  ultimately have "x \<le> n * q" using assms by linarith
  then show ?thesis unfolding q_def .
qed

lemma round_up_le:
  fixes b s n m :: nat
  assumes "b \<le> s" and "n dvd s" and "m < n"
  shows "n * ((b + m) div n) \<le> s"
proof -
  from assms(2) obtain k where s: "s = n * k" by (elim dvdE)
  have "b + m \<le> n * k + m"
    using assms(1) s by simp
  then have "(b + m) div n \<le> (n * k + m) div n"
    by (rule div_le_mono)
  moreover have "(n * k + m) div n = k + m div n"
    using assms(3) by (intro div_mult_self4) simp
  moreover have "m div n = 0"
    using assms(3) by (rule div_less)
  ultimately have "(b + m) div n \<le> k" by simp
  then show ?thesis unfolding s by simp
qed

lemma span_start:
  fixes a b n m :: nat
  shows "a div n \<le> (a + b + m) div n"
  by (rule div_le_mono) simp

lemma span_cover:
  fixes a b n m :: nat
  assumes "n = Suc m"
  shows "a mod n + b \<le> n * ((a + b + m) div n - a div n)"
proof -
  define c where "c = a mod n + b + m"
  have "a + b + m = c + a div n * n"
    unfolding c_def by (simp add: algebra_simps)
  moreover have "(c + a div n * n) div n = a div n + c div n"
    using assms by (intro div_mult_self1) simp
  ultimately have "(a + b + m) div n - a div n = c div n"
    by simp
  moreover have "a mod n + b \<le> n * ((a mod n + b + m) div n)"
    using assms by (rule round_up_ge)
  ultimately show ?thesis unfolding c_def by simp
qed

lemma word_range_2:
  fixes b s :: nat
  assumes "b \<le> s" and "even s"
  shows "2 * ((b + 1) div 2) \<le> s"
  using round_up_le [of b s 2 1] assms by simp

lemma word_range_4:
  fixes b s :: nat
  assumes "b \<le> s" and "4 dvd s"
  shows "4 * ((b + 3) div 4) \<le> s"
  using round_up_le [of b s 4 3] assms by simp

lemma span_2:
  fixes a b :: nat
  shows "a div 2 \<le> (a + b + 1) div 2"
    and "a mod 2 + b \<le> 2 * ((a + b + 1) div 2 - a div 2)"
  using span_start [of a 2 b 1] span_cover [of 2 1 a b] by simp_all

lemma span_4:
  fixes a b :: nat
  shows "a div 4 \<le> (a + b + 3) div 4"
    and "a mod 4 + b \<le> 4 * ((a + b + 3) div 4 - a div 4)"
  using span_start [of a 4 b 3] span_cover [of 4 3 a b] by simp_all

lemma unat_32_bound: "unat (x :: u32) < 4294967296"
  using unsigned_less [of x, where ?'a = nat] by simp

lemma unat_64_bound: "unat (x :: u64) < 18446744073709551616"
  using unsigned_less [of x, where ?'a = nat] by simp

lemma unat_ucast_32_64: "unat (ucast (x :: u32) :: u64) = unat x"
  using unat_32_bound [of x] by (simp add: unsigned_ucast_eq take_bit_nat_eq_self)

lemma unat_ucast_64_32: "unat (x :: u64) < 4294967296 \<Longrightarrow> unat (ucast x :: u32) = unat x"
  by (simp add: unsigned_ucast_eq take_bit_nat_eq_self)

lemma unat_add_64:
  "unat (x :: u64) + unat y < 18446744073709551616 \<Longrightarrow> unat (x + y) = unat x + unat y"
  by (simp add: unat_add_lem [THEN iffD1])

lemma unat_add_32:
  "unat (x :: u32) + unat y < 4294967296 \<Longrightarrow> unat (x + y) = unat x + unat y"
  by (simp add: unat_add_lem [THEN iffD1])

lemma unat_rounddown_div:
  fixes x :: u32
  shows "unat (rounddown x 2 div 2) = unat x div 2" "unat (rounddown x 4 div 4) = unat x div 4"
proof -
  have le: "x mod 2 \<le> x" "x mod 4 \<le> x"
    by (simp_all add: word_le_nat_alt unat_mod)
  have "unat (rounddown x 2 div 2) = (unat x - unat x mod 2) div 2"
    using le(1) by (simp add: rounddown_def unat_div unat_sub unat_mod)
  then show "unat (rounddown x 2 div 2) = unat x div 2"
    by presburger
  have "unat (rounddown x 4 div 4) = (unat x - unat x mod 4) div 4"
    using le(2) by (simp add: rounddown_def unat_div unat_sub unat_mod)
  then show "unat (rounddown x 4 div 4) = unat x div 4"
    by presburger
qed

lemma unat_roundup_div:
  fixes x :: u64
  assumes "unat x < 4294967296"
  shows "unat (ucast (roundup x 2 div 2) :: u32) = (unat x + 1) div 2"
    and "unat (ucast (roundup x 4 div 4) :: u32) = (unat x + 3) div 4"
proof -
  have a1: "unat (x + 1) = unat x + 1"
    using assms by (simp add: unat_add_64)
  have a3: "unat (x + 3) = unat x + 3"
    using assms by (simp add: unat_add_64)
  have m2: "unat ((x + 1) div 2 * 2) = (unat x + 1) div 2 * 2"
    using assms a1 by (simp add: unat_mult_lem [THEN iffD1] unat_div)
  have m4: "unat ((x + 3) div 4 * 4) = (unat x + 3) div 4 * 4"
    using assms a3 by (simp add: unat_mult_lem [THEN iffD1] unat_div)
  show "unat (ucast (roundup x 2 div 2) :: u32) = (unat x + 1) div 2"
    using assms m2 by (simp add: roundup_def unat_ucast_64_32 unat_div)
  show "unat (ucast (roundup x 4 div 4) :: u32) = (unat x + 3) div 4"
    using assms m4 by (simp add: roundup_def unat_ucast_64_32 unat_div)
qed

lemma memcpy_at_window:
  assumes "i + length w + m \<le> length buf"
  shows "take (i + length w) (memcpy_at buf i w) = take i buf @ w"
    and "drop (i + length w + m) (memcpy_at buf i w) = drop (i + length w + m) buf"
    and "length (memcpy_at buf i w) = length buf"
  using assms by (simp_all add: memcpy_at_def ac_simps)

lemma length_le_bytes [simp]: "length (le_bytes n v) = n"
  by (simp add: le_bytes_def)

lemma array3_size_words [simp]:
  "array3_size (unat (n :: u32)) 2 (Suc 0) = 2 * unat n"
  "array3_size (unat (n :: u32)) 4 (Suc 0) = 4 * unat n"
  using unat_32_bound [of n] by (simp_all add: array3_size_def)

lemma take_drop_window:
  assumes "k + b \<le> m"
  shows "take b (drop k (take m xs)) = take b (drop k xs)"
  using assms by (simp add: drop_take min_def)

lemma scast_nonneg:
  fixes sz :: u32
  assumes "unat sz < 2147483648"
  shows "(scast sz :: u64) = ucast sz"
proof -
  have "take_bit 31 (unat sz) = unat sz"
    using assms by (simp add: take_bit_nat_eq_self)
  then have "take_bit 31 sz = sz"
    by (metis of_nat_unat ucast_id unsigned_take_bit_eq)
  then have nb: "\<not> bit sz 31"
    by (metis bit_take_bit_iff less_irrefl)
  show ?thesis
  proof (rule bit_eqI)
    fix n
    show "bit (scast sz :: u64) n = bit (ucast sz :: u64) n"
    proof (cases "n < 31")
      case True
      then show ?thesis by (simp add: bit_simps min_def)
    next
      case False
      then have "min 31 n = 31" by simp
      moreover have "\<not> bit sz n"
        using False nb by (cases "n = 31") (auto dest: bit_imp_le_length)
      ultimately show ?thesis using nb by (simp add: bit_simps)
    qed
  qed
qed

lemma rk3588_clamp_len:
  fixes sz offset :: u32 and bytes :: u64
  assumes "unat sz < 2147483648" and "offset < sz"
    and "unat offset + unat bytes < 18446744073709551616"
  shows "unat (if ucast offset + bytes > (scast sz :: u64) then ucast (sz - offset) else bytes)
           = clamped_len (unat sz) (unat offset) (unat bytes)"
proof -
  have sum: "unat (ucast offset + bytes :: u64) = unat offset + unat bytes"
    using assms(3) by (simp add: unat_add_64 unat_ucast_32_64)
  have sz: "unat (scast sz :: u64) = unat sz"
    using assms(1) by (simp add: scast_nonneg unat_ucast_32_64)
  have sub: "unat (ucast (sz - offset) :: u64) = unat sz - unat offset"
    using assms(2) by (simp add: unat_ucast_32_64 unat_sub)
  show ?thesis
    using sum sz sub by (simp add: clamped_len_def word_less_nat_alt)
qed

lemma user_addr_decode:
  assumes "k < 65536"
  shows "unat ((of_nat k OR OTPC_USER_ADDR_MASK) AND 0xFFFF :: u32) = k"
proof -
  have m: "(0xFFFF :: u32) = mask 16" "(0xFFFF0000 :: u32) = push_bit 16 (mask 16)"
    by (simp_all add: mask_eq_exp_minus_1)
  have "(of_nat k OR OTPC_USER_ADDR_MASK) AND 0xFFFF = (take_bit 16 (of_nat k) :: u32)"
    unfolding m by (rule bit_eqI) (auto simp: bit_simps)
  also have "\<dots> = of_nat (take_bit 16 k)"
    by (simp add: of_nat_take_bit)
  also have "take_bit 16 k = k"
    using assms by (simp add: take_bit_nat_eq_self)
  finally show ?thesis
    using assms by (simp add: unat_of_nat take_bit_nat_eq_self)
qed

lemma auto_ctrl_decode:
  assumes "w + 768 < 65536"
  shows "unat (drop_bit 16 (push_bit 16 (of_nat w + RK3588_NO_SECURE_OFFSET) OR push_bit 8 1 :: u32))
           - unat RK3588_NO_SECURE_OFFSET = w"
proof -
  have a: "(of_nat w + 768 :: u32) = of_nat (w + 768)"
    by simp
  have t: "take_bit 16 (of_nat (w + 768) :: u32) = of_nat (w + 768)"
    using assms by (simp add: of_nat_take_bit [symmetric] take_bit_nat_eq_self del: of_nat_add)
  have "drop_bit 16 (push_bit 16 (of_nat (w + 768)) OR push_bit 8 1 :: u32)
          = take_bit 16 (of_nat (w + 768))"
    by (rule bit_eqI) (auto simp: bit_simps)
  then have "unat (drop_bit 16 (push_bit 16 (of_nat w + 768) OR push_bit 8 1 :: u32)) = w + 768"
    unfolding a t using assms by (simp add: unat_of_nat take_bit_nat_eq_self del: of_nat_add)
  then show ?thesis by simp
qed

lemma le_bytes_2_unfold: "le_bytes 2 v = [ucast v, ucast (drop_bit 8 v)]"
proof -
  have "[0..<2] = [0, Suc 0]"
    by (simp add: upt_conv_Cons)
  then show ?thesis
    by (simp add: le_bytes_def)
qed

lemma le_bytes_4_unfold:
  "le_bytes 4 v = [ucast v, ucast (drop_bit 8 v), ucast (drop_bit 16 v), ucast (drop_bit 24 v)]"
proof -
  have "[0..<4] = [0, 1, 2, 3]"
    by (simp add: upt_conv_Cons)
  then show ?thesis
    by (simp add: le_bytes_def)
qed

lemma le_bytes_2:
  fixes c0 c1 :: u8
  shows "le_bytes 2 (ucast c0 OR push_bit 8 (ucast c1)) = [c0, c1]"
proof -
  have "(ucast (ucast c0 OR push_bit 8 (ucast c1) :: u32) :: u8) = c0"
    by (rule bit_eqI) (auto simp: bit_simps dest: bit_imp_le_length)
  moreover have "(ucast (drop_bit 8 (ucast c0 OR push_bit 8 (ucast c1) :: u32)) :: u8) = c1"
    by (rule bit_eqI) (auto simp: bit_simps dest: bit_imp_le_length)
  ultimately show ?thesis
    unfolding le_bytes_2_unfold by simp
qed

lemma le_bytes_4:
  fixes c0 c1 c2 c3 :: u8
  shows "le_bytes 4 (ucast c0 OR push_bit 8 (ucast c1) OR push_bit 16 (ucast c2)
                       OR push_bit 24 (ucast c3)) = [c0, c1, c2, c3]"
proof -
  let ?v = "ucast c0 OR push_bit 8 (ucast c1) OR push_bit 16 (ucast c2)
              OR push_bit 24 (ucast c3) :: u32"
  have "(ucast ?v :: u8) = c0"
    by (rule bit_eqI) (auto simp: bit_simps dest: bit_imp_le_length)
  moreover have "(ucast (drop_bit 8 ?v) :: u8) = c1"
    by (rule bit_eqI) (auto simp: bit_simps dest: bit_imp_le_length)
  moreover have "(ucast (drop_bit 16 ?v) :: u8) = c2"
    by (rule bit_eqI) (auto simp: bit_simps dest: bit_imp_le_length)
  moreover have "(ucast (drop_bit 24 ?v) :: u8) = c3"
    by (rule bit_eqI) (auto simp: bit_simps dest: bit_imp_le_length)
  ultimately show ?thesis
    unfolding le_bytes_4_unfold by simp
qed

lemma take_2_drop:
  "k + 2 \<le> length xs \<Longrightarrow> take 2 (drop k xs) = [xs ! k, xs ! (k + 1)]"
  by (simp add: numeral_2_eq_2 take_Suc_conv_app_nth)

lemma take_4_drop:
  "k + 4 \<le> length xs \<Longrightarrow> take 4 (drop k xs) = [xs ! k, xs ! (k + 1), xs ! (k + 2), xs ! (k + 3)]"
proof -
  assume a: "k + 4 \<le> length xs"
  have "take 4 (drop k xs) = take 2 (drop k xs) @ take 2 (drop (k + 2) xs)"
    using take_add [of 2 2 "drop k xs"] by (simp add: add.commute)
  then show ?thesis
    using a take_2_drop [of k xs] take_2_drop [of "k + 2" xs]
    by (simp add: add.assoc eval_nat_numeral)
qed

lemma reset_reads_from [simp]:
  "reads_from a (snd (rockchip_otp_reset p tr)) = reads_from a tr"
  by (simp add: rockchip_otp_reset_def reset_control_assert_def reset_control_deassert_def
        udelay_def dev_err_def Let_def)

lemma ecc_enable_reads_from [simp]:
  "a \<noteq> OTPC_INT_STATUS \<Longrightarrow> reads_from a (snd (px30_otp_ecc_enable p enable tr)) = reads_from a tr"
  by (simp add: px30_otp_ecc_enable_def writel_def dev_err_def split_def Let_def)


lemma rk3568_word_range:
  fixes offset :: u32 and bytes :: u64
  assumes "unat offset + unat bytes < 4294967296"
  shows "unat ((ucast (roundup (ucast offset + bytes) 2 div 2 :: u64) :: u32)
               - rounddown offset 2 div 2) = word_count 2 (unat offset) (unat bytes)"
    and "unat (offset mod 2) + unat bytes
           \<le> 2 * unat ((ucast (roundup (ucast offset + bytes) 2 div 2 :: u64) :: u32)
                          - rounddown offset 2 div 2)"
proof -
  let ?o = "unat offset" and ?b = "unat bytes"
  let ?start = "rounddown offset 2 div 2"
  let ?end = "(ucast (roundup (ucast offset + bytes) 2 div 2 :: u64) :: u32)"
  have sum: "unat (ucast offset + bytes :: u64) = ?o + ?b"
    using assms by (simp add: unat_add_64 unat_ucast_32_64)
  have e: "unat ?end = (?o + ?b + 1) div 2"
    using unat_roundup_div(1) [of "ucast offset + bytes"] sum assms by simp
  have s: "unat ?start = ?o div 2"
    by (rule unat_rounddown_div)
  have le: "unat ?start \<le> unat ?end"
    unfolding e s by (rule span_2)
  then have "?start \<le> ?end"
    by (simp only: word_le_nat_alt)
  then have "unat (?end - ?start) = unat ?end - unat ?start"
    by (rule unat_sub)
  then have len: "unat (?end - ?start) = (?o + ?b + 1) div 2 - ?o div 2"
    unfolding e s .
  then show "unat (?end - ?start) = word_count 2 ?o ?b"
    by (simp add: word_count_def)
  have off: "unat (offset mod 2) = ?o mod 2"
    by (simp add: unat_mod)
  show "unat (offset mod 2) + ?b \<le> 2 * unat (?end - ?start)"
    unfolding len off by (rule span_2)
qed

lemma rk3588_word_range:
  fixes offset :: u32 and bytes :: u64
  assumes "unat offset + unat bytes < 4294967296"
  shows "unat ((ucast (roundup (ucast offset + bytes) 4 div 4 :: u64) :: u32)
               - rounddown offset 4 div 4) = word_count 4 (unat offset) (unat bytes)"
    and "unat (offset mod 4) + unat bytes
           \<le> 4 * unat ((ucast (roundup (ucast offset + bytes) 4 div 4 :: u64) :: u32)
                          - rounddown offset 4 div 4)"
proof -
  let ?o = "unat offset" and ?b = "unat bytes"
  let ?start = "rounddown offset 4 div 4"
  let ?end = "(ucast (roundup (ucast offset + bytes) 4 div 4 :: u64) :: u32)"
  have sum: "unat (ucast offset + bytes :: u64) = ?o + ?b"
    using assms by (simp add: unat_add_64 unat_ucast_32_64)
  have e: "unat ?end = (?o + ?b + 3) div 4"
    using unat_roundup_div(2) [of "ucast offset + bytes"] sum assms by simp
  have s: "unat ?start = ?o div 4"
    by (rule unat_rounddown_div)
  have le: "unat ?start \<le> unat ?end"
    unfolding e s by (rule span_4)
  then have "?start \<le> ?end"
    by (simp only: word_le_nat_alt)
  then have "unat (?end - ?start) = unat ?end - unat ?start"
    by (rule unat_sub)
  then have len: "unat (?end - ?start) = (?o + ?b + 3) div 4 - ?o div 4"
    unfolding e s .
  then show "unat (?end - ?start) = word_count 4 ?o ?b"
    by (simp add: word_count_def)
  have off: "unat (offset mod 4) = ?o mod 4"
    by (simp add: unat_mod)
  show "unat (offset mod 4) + ?b \<le> 4 * unat (?end - ?start)"
    unfolding len off by (rule span_4)
qed

subsection \<open>Continuing a trace\<close>

lemma along_append [simp]:
  "along P h (xs @ ys) = (along P h xs \<and> along P (h @ xs) ys)"
  by (induction xs arbitrary: h) simp_all

lemma steps_append [simp]: "steps P tr (tr @ es) = along P tr es"
  by (simp add: steps_def)

lemma steps_self [simp]: "steps P tr tr"
  by (simp add: steps_def)

lemma run_iff: "run p tr T = (\<exists>es. T = tr @ es \<and> along (answers p) tr es)"
proof
  assume "run p tr T"
  then have "T = tr @ drop (length tr) T" "along (answers p) tr (drop (length tr) T)"
    unfolding run_def steps_def by (metis append_take_drop_id, simp)
  then show "\<exists>es. T = tr @ es \<and> along (answers p) tr es" by blast
next
  assume "\<exists>es. T = tr @ es \<and> along (answers p) tr es"
  then show "run p tr T" by (auto simp: run_def)
qed

lemma run_refl [simp]: "run p tr tr"
  by (simp add: run_iff)

lemma run_append [simp]: "run p tr (tr @ es) = along (answers p) tr es"
  by (simp add: run_iff)

lemma run_append2 [simp]:
  "run p (tr @ xs) (tr @ ys) = (\<exists>es. ys = xs @ es \<and> along (answers p) (tr @ xs) es)"
  by (simp add: run_iff)

lemma run_trans: "run p tr tr' \<Longrightarrow> run p tr' T \<Longrightarrow> run p tr T"
  by (auto simp: run_iff)

lemma run_event: "run p tr0 tr \<Longrightarrow> answers p tr e \<Longrightarrow> run p tr0 (tr @ [e])"
  by (auto simp: run_iff)

lemma steps_at: "steps P tr T \<Longrightarrow> run p tr h \<Longrightarrow> run p (h @ [e]) T \<Longrightarrow> P h e"
  by (auto simp: run_iff)

lemma steps_shift: "steps P tr T \<Longrightarrow> run p tr tr' \<Longrightarrow> run p tr' T \<Longrightarrow> steps P tr' T"
  by (auto simp: run_iff steps_def)

lemma steps_mono:
  "run p tr T \<Longrightarrow> (\<And>h e. answers p h e \<Longrightarrow> P h e) \<Longrightarrow> steps P tr T"
proof -
  assume r: "run p tr T" and m: "\<And>h e. answers p h e \<Longrightarrow> P h e"
  have "along (answers p) h es \<Longrightarrow> along P h es" for h es
    by (induction es arbitrary: h) (auto intro: m)
  with r show ?thesis by (auto simp: run_iff)
qed

named_theorems run_intros

lemma run_writel [run_intros]: "run p tr0 tr \<Longrightarrow> run p tr0 (writel v a tr)"
  by (simp add: writel_def run_event)

lemma run_udelay [run_intros]: "run p tr0 tr \<Longrightarrow> run p tr0 (udelay d tr)"
  by (simp add: udelay_def run_event)

lemma run_dev_err [run_intros]: "run p tr0 tr \<Longrightarrow> run p tr0 (dev_err msg tr)"
  by (simp add: dev_err_def run_event)

lemma run_readl [run_intros]: "run p tr0 tr \<Longrightarrow> run p tr0 (snd (readl p a tr))"
  by (simp add: readl_eq run_event)

lemma run_readb [run_intros]: "run p tr0 tr \<Longrightarrow> run p tr0 (snd (readb p a tr))"
  by (simp add: readb_eq run_event)

lemma run_clk_enable [run_intros]:
  "run p tr0 tr \<Longrightarrow> run p tr0 (snd (clk_bulk_prepare_enable p tr))"
  by (simp add: clk_bulk_prepare_enable_def Let_def run_event)

lemma run_clk_disable [run_intros]: "run p tr0 tr \<Longrightarrow> run p tr0 (clk_bulk_disable_unprepare tr)"
  by (simp add: clk_bulk_disable_unprepare_def run_event)

lemma run_assert [run_intros]: "run p tr0 tr \<Longrightarrow> run p tr0 (snd (reset_control_assert p tr))"
  by (simp add: reset_control_assert_def Let_def run_event)

lemma run_deassert [run_intros]: "run p tr0 tr \<Longrightarrow> run p tr0 (snd (reset_control_deassert p tr))"
  by (simp add: reset_control_deassert_def Let_def run_event)

lemma run_kzalloc [run_intros]: "run p tr0 tr \<Longrightarrow> run p tr0 (snd (kzalloc p n tr))"
  by (simp add: kzalloc_def Let_def run_event)

lemma run_kfree [run_intros]: "run p tr0 tr \<Longrightarrow> run p tr0 (kfree tr)"
  by (simp add: kfree_def run_event)

lemma run_poll_loop [run_intros]:
  "run p tr0 tr \<Longrightarrow> run p tr0 (snd (poll_loop p a cond d n tr))"
proof (induction n arbitrary: tr)
  case 0
  then show ?case by (auto simp: split_def Let_def intro!: run_intros)
next
  case (Suc n)
  show ?case
    using Suc.prems by (auto simp: split_def Let_def intro!: Suc.IH run_intros)
qed

lemma run_px30_wait [run_intros]:
  "run p tr0 tr \<Longrightarrow> run p tr0 (snd (px30_otp_wait_status p flag tr))"
  by (auto simp: px30_otp_wait_status_def readl_poll_timeout_atomic_def split_def Let_def
        simp del: One_nat_def intro!: run_intros)

lemma run_rk3588_wait [run_intros]:
  "run p tr0 tr \<Longrightarrow> run p tr0 (snd (rk3588_otp_wait_status p flag tr))"
  by (auto simp: rk3588_otp_wait_status_def readl_poll_timeout_atomic_def split_def Let_def
        simp del: One_nat_def intro!: run_intros)

lemma run_reset [run_intros]: "run p tr0 tr \<Longrightarrow> run p tr0 (snd (rockchip_otp_reset p tr))"
  by (auto simp: rockchip_otp_reset_def split_def Let_def intro!: run_intros)

lemma run_ecc_enable [run_intros]:
  "run p tr0 tr \<Longrightarrow> run p tr0 (snd (px30_otp_ecc_enable p enable tr))"
  by (auto simp: px30_otp_ecc_enable_def split_def Let_def intro!: run_intros)

lemma run_px30_loop [run_intros]:
  "run p tr0 tr \<Longrightarrow> run p tr0 (snd (snd (px30_read_loop p n offset ret out tr)))"
proof (induction n arbitrary: offset ret out tr)
  case 0
  then show ?case by simp
next
  case (Suc n)
  show ?case
    using Suc.prems by (auto simp: split_def Let_def intro!: Suc.IH run_intros)
qed

lemma run_rk3568_loop [run_intros]:
  "run p tr0 tr \<Longrightarrow> run p tr0 (snd (snd (rk3568_read_loop p n a i buf ret tr)))"
proof (induction n arbitrary: a i buf ret tr)
  case 0
  then show ?case by simp
next
  case (Suc n)
  show ?case
    using Suc.prems by (auto simp: split_def Let_def intro!: Suc.IH run_intros)
qed

lemma run_rk3588_loop [run_intros]:
  "run p tr0 tr \<Longrightarrow> run p tr0 (snd (snd (rk3588_read_loop p n a i buf ret tr)))"
proof (induction n arbitrary: a i buf ret tr)
  case 0
  then show ?case by simp
next
  case (Suc n)
  show ?case
    using Suc.prems by (auto simp: split_def Let_def intro!: Suc.IH run_intros)
qed

lemma run_px30_read [run_intros]:
  "run p tr0 tr \<Longrightarrow> run p tr0 (trace_of (px30_otp_read p offset bytes tr))"
  by (auto simp: trace_of_def px30_otp_read_def px30_read_end_def px30_disable_clks_def
        split_def Let_def intro!: run_intros)

lemma run_rk3568_transfer [run_intros]:
  "run p tr0 tr \<Longrightarrow>
   run p tr0 (trace_of (rk3568_transfer p addr_len addr_start addr_offset bytes tr))"
  by (auto simp: trace_of_def rk3568_transfer_def rk3568_read_end_def rk3568_disable_clks_def
        rk3568_out_def split_def Let_def split: option.splits intro!: run_intros)

lemma run_rk3588_transfer [run_intros]:
  "run p tr0 tr \<Longrightarrow>
   run p tr0 (trace_of (rk3588_transfer p addr_len addr_start addr_offset bytes tr))"
  by (auto simp: trace_of_def rk3588_transfer_def rk3588_read_end_def rk3588_out_def
        split_def Let_def split: option.splits intro!: run_intros)

lemma run_call [run_intros]:
  "run p tr0 tr \<Longrightarrow> run p tr0 (trace_of (call_reg_read f p d offset bytes tr))"
  by (cases f)
     (auto simp: rk3568_otp_read_def rk3588_otp_read_def Let_def intro!: run_intros)

subsection \<open>Reads in which no step fails\<close>

lemma px30_wait_ok:
  "\<not> stays_clear p OTPC_INT_STATUS flag OTPC_TIMEOUT tr \<Longrightarrow>
   fst (px30_otp_wait_status p flag tr) = 0"
  using px30_wait_cases [of p flag tr] by auto

lemma rk3588_wait_ok:
  "\<not> stays_clear p RK3588_OTPC_INT_ST flag OTPC_TIMEOUT tr \<Longrightarrow>
   fst (rk3588_otp_wait_status p flag tr) = 0"
  using rk3588_wait_cases [of p flag tr] by auto

lemma px30_loop_reads:
  assumes "steps (step_ok Px30_otp_read p) tr0 T" and "steps (load_ok Px30_otp_read fuse) tr0 T"
  shows "run p tr0 tr \<Longrightarrow> run p (snd (snd (px30_read_loop p n (of_nat k) 0 out tr))) T \<Longrightarrow>
         k + n \<le> length fuse \<Longrightarrow>
         fst (px30_read_loop p n (of_nat k) 0 out tr) = 0
         \<and> fst (snd (px30_read_loop p n (of_nat k) 0 out tr)) = out @ take n (drop k fuse)"
proof (induction n arbitrary: k out tr)
  case 0
  then show ?case by simp
next
  case (Suc n)
  let ?A = "Writel (of_nat k OR OTPC_USER_ADDR_MASK) OTPC_USER_ADDR"
  let ?B = "Writel (OTPC_USER_FSM_ENABLE OR OTPC_USER_FSM_ENABLE_MASK) OTPC_USER_ENABLE"
  let ?L = "px30_read_loop p (Suc n) (of_nat k) 0 out tr"
  have r1: "run p (tr @ [?A, ?B]) (snd (snd ?L))"
    by (auto simp: split_def Let_def writel_def intro!: run_intros)
  have a0: "run p tr0 (tr @ [?A])"
    using Suc.prems(1) by (simp add: run_event)
  have "run p (tr @ [?A, ?B]) T"
    using r1 Suc.prems(2) by (rule run_trans)
  then have "run p ((tr @ [?A]) @ [?B]) T"
    by simp
  with assms(1) a0 have "step_ok Px30_otp_read p (tr @ [?A]) ?B"
    by (rule steps_at)
  then have "\<not> stays_clear p OTPC_INT_STATUS OTPC_USER_DONE OTPC_TIMEOUT (tr @ [?A, ?B])"
    by simp
  then have w: "fst (px30_otp_wait_status p OTPC_USER_DONE (tr @ [?A, ?B])) = 0"
    by (rule px30_wait_ok)
  define tr2 where "tr2 = snd (px30_otp_wait_status p OTPC_USER_DONE (tr @ [?A, ?B]))"
  let ?b = "readb_val p tr2 OTPC_USER_Q"
  let ?tr3 = "tr2 @ [Readb OTPC_USER_Q ?b]"
  have unfold: "?L = px30_read_loop p n (of_nat (Suc k)) 0 (out @ [?b]) ?tr3"
    using w by (simp add: writel_def readb_eq split_def Let_def tr2_def add.commute)
  have "run p tr0 (tr @ [?A, ?B])"
    using run_event [OF a0, of ?B] by simp
  then have r2: "run p tr0 tr2"
    unfolding tr2_def by (rule run_px30_wait)
  then have r3: "run p tr0 ?tr3"
    by (simp add: run_event)
  have r3T: "run p (snd (snd (px30_read_loop p n (of_nat (Suc k)) 0 (out @ [?b]) ?tr3))) T"
    using Suc.prems(2) unfolding unfold .
  have "run p ?tr3 (snd (snd (px30_read_loop p n (of_nat (Suc k)) 0 (out @ [?b]) ?tr3)))"
    by (intro run_intros) simp
  then have "run p ?tr3 T"
    using r3T by (rule run_trans)
  with assms(2) r2 have "load_ok Px30_otp_read fuse tr2 (Readb OTPC_USER_Q ?b)"
    by (rule steps_at)
  moreover have "last_write OTPC_USER_ADDR tr2 = Some (of_nat k OR OTPC_USER_ADDR_MASK)"
    unfolding tr2_def by simp
  moreover have k: "k < length fuse"
    using Suc.prems(3) by simp
  ultimately have b: "?b = fuse ! k"
    by simp
  have "Suc k + n \<le> length fuse"
    using Suc.prems(3) by simp
  from Suc.IH [OF r3 r3T this]
  have "fst ?L = 0" "fst (snd ?L) = (out @ [fuse ! k]) @ take n (drop (Suc k) fuse)"
    unfolding unfold b by simp_all
  moreover have "fuse ! k # take n (drop (Suc k) fuse) = take (Suc n) (drop k fuse)"
    using k by (simp add: Cons_nth_drop_Suc [symmetric])
  ultimately show ?case
    by simp
qed

lemma reset_ok_run:
  assumes "steps (step_ok f p) tr0 T" and "run p tr0 tr"
    and "run p (snd (rockchip_otp_reset p tr)) T"
  shows "fst (rockchip_otp_reset p tr) = 0"
proof -
  let ?ra = "assert_ret p tr"
  have "run p (tr @ [RstAssert ?ra]) (snd (rockchip_otp_reset p tr))"
    by (auto simp: rockchip_otp_reset_def reset_control_assert_def reset_control_deassert_def
          dev_err_def udelay_def Let_def run_iff)
  then have "run p (tr @ [RstAssert ?ra]) T"
    using assms(3) by (rule run_trans)
  with assms(1,2) have "step_ok f p tr (RstAssert ?ra)"
    by (rule steps_at)
  then have ra: "?ra = 0"
    by simp
  let ?h = "tr @ [RstAssert 0, Udelay 2]"
  let ?rd = "deassert_ret p ?h"
  have h: "run p tr0 ?h"
    using run_event [OF run_event [OF assms(2), of "RstAssert 0"], of "Udelay 2"] ra by simp
  have "run p (?h @ [RstDeassert ?rd]) (snd (rockchip_otp_reset p tr))"
    using ra
    by (auto simp: rockchip_otp_reset_def reset_control_assert_def reset_control_deassert_def
          dev_err_def udelay_def Let_def run_iff)
  then have "run p (?h @ [RstDeassert ?rd]) T"
    using assms(3) by (rule run_trans)
  with assms(1) h have "step_ok f p ?h (RstDeassert ?rd)"
    by (rule steps_at)
  then have "?rd = 0"
    by simp
  with ra show ?thesis
    by (simp add: rockchip_otp_reset_def reset_control_assert_def reset_control_deassert_def
          udelay_def Let_def)
qed

lemma ecc_enable_ok_run:
  assumes "steps (step_ok f p) tr0 T" and "f \<noteq> Rk3588_otp_read" and "run p tr0 tr"
    and "run p (snd (px30_otp_ecc_enable p enable tr)) T"
  shows "fst (px30_otp_ecc_enable p enable tr) = 0"
proof -
  let ?h = "tr @ [Writel 0xFF000200 OTPC_SBPI_CTRL, Writel 0xFFFF0001 OTPC_SBPI_CMD_VALID_PRE,
                  Writel 0xFA OTPC_SBPI_CMD0_OFFSET,
                  Writel (if enable then SBPI_ECC_ENABLE else SBPI_ECC_DISABLE)
                    OTPC_SBPI_CMD1_OFFSET]"
  let ?B = "Writel (SBPI_ENABLE_MASK OR SBPI_ENABLE) OTPC_SBPI_CTRL"
  have h: "run p tr0 ?h"
    using assms(3) by (auto simp: run_iff)
  have "run p (?h @ [?B]) (snd (px30_otp_ecc_enable p enable tr))"
    by (auto simp: px30_otp_ecc_enable_def writel_def split_def Let_def intro!: run_intros)
  then have "run p (?h @ [?B]) T"
    using assms(4) by (rule run_trans)
  with assms(1) h have "step_ok f p ?h ?B"
    by (rule steps_at)
  then have "\<not> stays_clear p OTPC_INT_STATUS OTPC_SBPI_DONE OTPC_TIMEOUT (?h @ [?B])"
    using assms(2) by (cases f) simp_all
  then have "fst (px30_otp_wait_status p OTPC_SBPI_DONE (?h @ [?B])) = 0"
    by (rule px30_wait_ok)
  then show ?thesis
    by (cases enable) (simp_all add: px30_otp_ecc_enable_def writel_def split_def Let_def)
qed

lemma px30_read_setup:
  assumes "steps (step_ok Px30_otp_read p) tr (trace_of (px30_otp_read p offset bytes tr))"
  shows "\<exists>tr3. run p tr tr3 \<and> reads_from OTPC_USER_Q tr3 = reads_from OTPC_USER_Q tr
           \<and> px30_otp_read p offset bytes tr
               = (Inr (fst (px30_read_loop p (unat bytes) offset 0 [] tr3)),
                  fst (snd (px30_read_loop p (unat bytes) offset 0 [] tr3)),
                  px30_read_end (snd (snd (px30_read_loop p (unat bytes) offset 0 [] tr3))))"
proof -
  let ?T = "trace_of (px30_otp_read p offset bytes tr)"
  let ?r = "clk_enable_ret p tr"
  have "run p (tr @ [ClkEnable ?r]) ?T"
    by (auto simp: trace_of_def px30_otp_read_def clk_bulk_prepare_enable_def px30_read_end_def
          px30_disable_clks_def split_def Let_def intro!: run_intros)
  with assms have "step_ok Px30_otp_read p tr (ClkEnable ?r)"
    by (rule steps_at [OF _ run_refl])
  then have clk: "?r = 0"
    by simp
  let ?tr0 = "tr @ [ClkEnable 0]"
  have r0: "run p tr ?tr0"
    using clk by (simp add: run_event)
  define tr1 where "tr1 = snd (rockchip_otp_reset p ?tr0)"
  have "run p tr1 ?T"
    using clk
    by (auto simp: trace_of_def px30_otp_read_def clk_bulk_prepare_enable_def px30_read_end_def
          px30_disable_clks_def split_def Let_def tr1_def [symmetric] intro!: run_intros)
  then have rst: "fst (rockchip_otp_reset p ?tr0) = 0"
    unfolding tr1_def by (rule reset_ok_run [OF assms r0])
  have r1: "run p tr tr1"
    unfolding tr1_def using r0 by (rule run_reset)
  define tr2 where "tr2 = snd (px30_otp_ecc_enable p False tr1)"
  have "run p tr2 ?T"
    using clk rst
    by (auto simp: trace_of_def px30_otp_read_def clk_bulk_prepare_enable_def px30_read_end_def
          px30_disable_clks_def split_def Let_def tr1_def [symmetric] tr2_def [symmetric]
          intro!: run_intros)
  then have ecc: "fst (px30_otp_ecc_enable p False tr1) = 0"
    unfolding tr2_def by (rule ecc_enable_ok_run [OF assms reg_read_t.distinct(3) r1])
  have r2: "run p tr tr2"
    unfolding tr2_def using r1 by (rule run_ecc_enable)
  let ?tr3 = "tr2 @ [Writel (OTPC_USE_USER OR OTPC_USE_USER_MASK) OTPC_USER_CTRL, Udelay 5]"
  have "run p tr ?tr3"
    using r2 by (auto simp: run_iff)
  moreover have "reads_from OTPC_USER_Q ?tr3 = reads_from OTPC_USER_Q tr"
    unfolding tr2_def tr1_def by simp
  moreover have "px30_otp_read p offset bytes tr
               = (Inr (fst (px30_read_loop p (unat bytes) offset 0 [] ?tr3)),
                  fst (snd (px30_read_loop p (unat bytes) offset 0 [] ?tr3)),
                  px30_read_end (snd (snd (px30_read_loop p (unat bytes) offset 0 [] ?tr3))))"
    using clk rst ecc unfolding tr2_def tr1_def
    by (simp add: px30_otp_read_def clk_bulk_prepare_enable_def writel_def udelay_def
          split_def Let_def)
  ultimately show ?thesis
    by blast
qed

lemma px30_read_ok:
  assumes "no_step_fails Px30_otp_read p tr (trace_of (px30_otp_read p offset bytes tr))"
    and "loads_fuse Px30_otp_read fuse tr (trace_of (px30_otp_read p offset bytes tr))"
    and "unat offset + unat bytes \<le> length fuse"
  shows "ret_of (px30_otp_read p offset bytes tr) = Inr 0"
    and "delivered (px30_otp_read p offset bytes tr) = take (unat bytes) (drop (unat offset) fuse)"
proof -
  let ?T = "trace_of (px30_otp_read p offset bytes tr)"
  have s: "steps (step_ok Px30_otp_read p) tr ?T" "steps (load_ok Px30_otp_read fuse) tr ?T"
    using assms(1,2) by (simp_all add: no_step_fails_def loads_fuse_def)
  from px30_read_setup [OF s(1)] obtain tr3 where tr3: "run p tr tr3"
    and eq: "px30_otp_read p offset bytes tr
               = (Inr (fst (px30_read_loop p (unat bytes) offset 0 [] tr3)),
                  fst (snd (px30_read_loop p (unat bytes) offset 0 [] tr3)),
                  px30_read_end (snd (snd (px30_read_loop p (unat bytes) offset 0 [] tr3))))"
    by blast
  have "run p (snd (snd (px30_read_loop p (unat bytes) offset 0 [] tr3))) ?T"
    unfolding eq
    by (simp add: px30_read_end_def px30_disable_clks_def writel_def
          clk_bulk_disable_unprepare_def)
  then have "run p (snd (snd (px30_read_loop p (unat bytes) (of_nat (unat offset)) 0 [] tr3))) ?T"
    by simp
  from px30_loop_reads [OF s tr3 this assms(3)]
  show "ret_of (px30_otp_read p offset bytes tr) = Inr 0"
    and "delivered (px30_otp_read p offset bytes tr) = take (unat bytes) (drop (unat offset) fuse)"
    unfolding eq by simp_all
qed


lemma rk3568_loop_ok:
  assumes "steps (step_ok Rk3568_otp_read p) tr0 T"
  shows "run p tr0 tr \<Longrightarrow> run p (snd (snd (rk3568_read_loop p n a i buf 0 tr))) T \<Longrightarrow>
         i + 2 * n \<le> length buf \<Longrightarrow>
         \<exists>buf'. rk3568_read_loop p n a i buf 0 tr
                  = (0, Some buf', snd (snd (rk3568_read_loop p n a i buf 0 tr)))
           \<and> length buf' = length buf
           \<and> length (reads_from OTPC_USER_Q (snd (snd (rk3568_read_loop p n a i buf 0 tr))))
               = length (reads_from OTPC_USER_Q tr) + n
           \<and> (steps (load_ok Rk3568_otp_read fuse) tr0 T \<longrightarrow>
                (\<forall>w. a = of_nat w \<longrightarrow> 2 * (w + n) \<le> length fuse \<longrightarrow>
                   buf' = take i buf @ take (2 * n) (drop (2 * w) fuse) @ drop (i + 2 * n) buf))"
proof (induction n arbitrary: a i buf tr)
  case 0
  then show ?case by simp
next
  case (Suc n)
  let ?A = "Writel (a OR OTPC_USER_ADDR_MASK) OTPC_USER_ADDR"
  let ?B = "Writel (OTPC_USER_FSM_ENABLE OR OTPC_USER_FSM_ENABLE_MASK) OTPC_USER_ENABLE"
  let ?L = "rk3568_read_loop p (Suc n) a i buf 0 tr"
  have r1: "run p (tr @ [?A, ?B]) (snd (snd ?L))"
    by (auto simp: split_def Let_def writel_def intro!: run_intros)
  have a0: "run p tr0 (tr @ [?A])"
    using Suc.prems(1) by (simp add: run_event)
  have "run p (tr @ [?A, ?B]) T"
    using r1 Suc.prems(2) by (rule run_trans)
  then have "run p ((tr @ [?A]) @ [?B]) T"
    by simp
  with assms a0 have "step_ok Rk3568_otp_read p (tr @ [?A]) ?B"
    by (rule steps_at)
  then have "\<not> stays_clear p OTPC_INT_STATUS OTPC_USER_DONE OTPC_TIMEOUT (tr @ [?A, ?B])"
    by simp
  then have w: "fst (px30_otp_wait_status p OTPC_USER_DONE (tr @ [?A, ?B])) = 0"
    by (rule px30_wait_ok)
  let ?tr2 = "snd (px30_otp_wait_status p OTPC_USER_DONE (tr @ [?A, ?B]))"
  have "run p tr0 (tr @ [?A, ?B])"
    using run_event [OF a0, of ?B] by simp
  then have r2: "run p tr0 ?tr2"
    by (rule run_px30_wait)
  let ?qp = "readl_val p ?tr2 OTPC_USER_QP"
  let ?tr3 = "?tr2 @ [Readl OTPC_USER_QP ?qp]"
  have "run p ?tr3 (snd (snd ?L))"
    using w
    by (auto simp: split_def Let_def writel_def readl_eq dev_err_def intro!: run_intros)
  then have "run p ?tr3 T"
    using Suc.prems(2) by (rule run_trans)
  with assms r2 have "step_ok Rk3568_otp_read p ?tr2 (Readl OTPC_USER_QP ?qp)"
    by (rule steps_at)
  then have qp: "\<not> (?qp AND 0xc0 = 0xc0 \<or> ?qp AND 0x20 \<noteq> 0)"
    by (simp add: ecc_flagged_def)
  have r3: "run p tr0 ?tr3"
    using r2 by (simp add: run_event)
  let ?v = "readl_val p ?tr3 OTPC_USER_Q"
  let ?tr4 = "?tr3 @ [Readl OTPC_USER_Q ?v]"
  let ?buf = "memcpy_at buf i (le_bytes 2 ?v)"
  let ?L' = "rk3568_read_loop p n (a + 1) (i + 2) ?buf 0 ?tr4"
  have unfold: "?L = ?L'"
    using w qp by (simp add: writel_def readl_eq split_def Let_def)
  have r4: "run p tr0 ?tr4"
    using run_event [OF r3, of "Readl OTPC_USER_Q ?v"] by simp
  have r4T: "run p (snd (snd ?L')) T"
    using Suc.prems(2) unfolding unfold .
  have win: "take (i + 2) ?buf = take i buf @ le_bytes 2 ?v"
    "drop (i + 2 + 2 * n) ?buf = drop (i + 2 + 2 * n) buf" "length ?buf = length buf"
    using memcpy_at_window [of i "le_bytes 2 ?v" "2 * n" buf] Suc.prems(3) by simp_all
  have "i + 2 + 2 * n \<le> length ?buf"
    using Suc.prems(3) win(3) by simp
  from Suc.IH [OF r4 r4T this] obtain buf' where
    L': "?L' = (0, Some buf', snd (snd ?L'))"
    and len: "length buf' = length ?buf"
    and cnt: "length (reads_from OTPC_USER_Q (snd (snd ?L')))
                = length (reads_from OTPC_USER_Q ?tr4) + n"
    and dat: "steps (load_ok Rk3568_otp_read fuse) tr0 T \<longrightarrow>
                (\<forall>w. a + 1 = of_nat w \<longrightarrow> 2 * (w + n) \<le> length fuse \<longrightarrow>
                   buf' = take (i + 2) ?buf @ take (2 * n) (drop (2 * w) fuse)
                          @ drop (i + 2 + 2 * n) ?buf)"
    by blast
  have rd: "reads_from OTPC_USER_Q ?tr2 = reads_from OTPC_USER_Q tr"
    by simp
  have "steps (load_ok Rk3568_otp_read fuse) tr0 T \<longrightarrow>
          (\<forall>w. a = of_nat w \<longrightarrow> 2 * (w + Suc n) \<le> length fuse \<longrightarrow>
             buf' = take i buf @ take (2 * Suc n) (drop (2 * w) fuse) @ drop (i + 2 * Suc n) buf)"
  proof (intro impI allI)
    fix w
    assume ld: "steps (load_ok Rk3568_otp_read fuse) tr0 T" and a: "a = of_nat w"
      and le: "2 * (w + Suc n) \<le> length fuse"
    have "run p ?tr4 (snd (snd ?L'))"
      by (intro run_intros) simp
    then have "run p ?tr4 T"
      using r4T by (rule run_trans)
    with ld r3 have "load_ok Rk3568_otp_read fuse ?tr3 (Readl OTPC_USER_Q ?v)"
      by (rule steps_at)
    moreover have "last_write OTPC_USER_ADDR ?tr3 = Some (of_nat w OR OTPC_USER_ADDR_MASK)"
      unfolding a by simp
    moreover have "2 * w + 2 \<le> length fuse" "w < length fuse"
      using le by simp_all
    ultimately have v: "le_bytes 2 ?v = take 2 (drop (2 * w) fuse)"
      by simp
    have "a + 1 = of_nat (Suc w)"
      using a by simp
    moreover have "2 * (Suc w + n) \<le> length fuse"
      using le by simp
    ultimately have "buf' = take (i + 2) ?buf @ take (2 * n) (drop (2 * Suc w) fuse)
                            @ drop (i + 2 + 2 * n) ?buf"
      using dat ld by blast
    moreover have "take 2 (drop (2 * w) fuse) @ take (2 * n) (drop (2 * Suc w) fuse) @ rest
                     = take (2 * Suc n) (drop (2 * w) fuse) @ rest" for rest
      using take_add [of 2 "2 * n" "drop (2 * w) fuse"] by (simp add: add.commute)
    ultimately show "buf' = take i buf @ take (2 * Suc n) (drop (2 * w) fuse)
                            @ drop (i + 2 * Suc n) buf"
      using win v by simp
  qed
  with L' len cnt rd win(3) show ?case
    unfolding unfold by auto
qed

lemma rk3588_loop_ok:
  assumes "steps (step_ok Rk3588_otp_read p) tr0 T"
  shows "run p tr0 tr \<Longrightarrow> run p (snd (snd (rk3588_read_loop p n a i buf 0 tr))) T \<Longrightarrow>
         i + 4 * n \<le> length buf \<Longrightarrow>
         \<exists>buf'. rk3588_read_loop p n a i buf 0 tr
                  = (0, Some buf', snd (snd (rk3588_read_loop p n a i buf 0 tr)))
           \<and> length buf' = length buf
           \<and> length (reads_from RK3588_OTPC_DOUT0 (snd (snd (rk3588_read_loop p n a i buf 0 tr))))
               = length (reads_from RK3588_OTPC_DOUT0 tr) + n
           \<and> (steps (load_ok Rk3588_otp_read fuse) tr0 T \<longrightarrow>
                (\<forall>w. a = of_nat w + RK3588_NO_SECURE_OFFSET \<longrightarrow> 4 * (w + n) \<le> length fuse \<longrightarrow>
                   buf' = take i buf @ take (4 * n) (drop (4 * w) fuse) @ drop (i + 4 * n) buf))"
proof (induction n arbitrary: a i buf tr)
  case 0
  then show ?case by simp
next
  case (Suc n)
  let ?A = "Writel (push_bit RK3588_ADDR_SHIFT a OR push_bit RK3588_BURST_SHIFT RK3588_BURST_NUM)
              RK3588_OTPC_AUTO_CTRL"
  let ?B = "Writel RK3588_AUTO_EN RK3588_OTPC_AUTO_EN"
  let ?L = "rk3588_read_loop p (Suc n) a i buf 0 tr"
  have r1: "run p (tr @ [?A, ?B]) (snd (snd ?L))"
    by (auto simp: split_def Let_def writel_def intro!: run_intros)
  have a0: "run p tr0 (tr @ [?A])"
    using Suc.prems(1) by (simp add: run_event)
  have "run p (tr @ [?A, ?B]) T"
    using r1 Suc.prems(2) by (rule run_trans)
  then have "run p ((tr @ [?A]) @ [?B]) T"
    by simp
  with assms a0 have "step_ok Rk3588_otp_read p (tr @ [?A]) ?B"
    by (rule steps_at)
  then have "\<not> stays_clear p RK3588_OTPC_INT_ST RK3588_RD_DONE OTPC_TIMEOUT (tr @ [?A, ?B])"
    by simp
  then have w: "fst (rk3588_otp_wait_status p RK3588_RD_DONE (tr @ [?A, ?B])) = 0"
    by (rule rk3588_wait_ok)
  let ?tr2 = "snd (rk3588_otp_wait_status p RK3588_RD_DONE (tr @ [?A, ?B]))"
  have "run p tr0 (tr @ [?A, ?B])"
    using run_event [OF a0, of ?B] by simp
  then have r2: "run p tr0 ?tr2"
    by (rule run_rk3588_wait)
  let ?v = "readl_val p ?tr2 RK3588_OTPC_DOUT0"
  let ?tr4 = "?tr2 @ [Readl RK3588_OTPC_DOUT0 ?v]"
  let ?buf = "memcpy_at buf i (le_bytes 4 ?v)"
  let ?L' = "rk3588_read_loop p n (a + 1) (i + 4) ?buf 0 ?tr4"
  have unfold: "?L = ?L'"
    using w by (simp add: writel_def readl_eq split_def Let_def)
  have r4: "run p tr0 ?tr4"
    using run_event [OF r2, of "Readl RK3588_OTPC_DOUT0 ?v"] by simp
  have r4T: "run p (snd (snd ?L')) T"
    using Suc.prems(2) unfolding unfold .
  have win: "take (i + 4) ?buf = take i buf @ le_bytes 4 ?v"
    "drop (i + 4 + 4 * n) ?buf = drop (i + 4 + 4 * n) buf" "length ?buf = length buf"
    using memcpy_at_window [of i "le_bytes 4 ?v" "4 * n" buf] Suc.prems(3) by simp_all
  have "i + 4 + 4 * n \<le> length ?buf"
    using Suc.prems(3) win(3) by simp
  from Suc.IH [OF r4 r4T this] obtain buf' where
    L': "?L' = (0, Some buf', snd (snd ?L'))"
    and len: "length buf' = length ?buf"
    and cnt: "length (reads_from RK3588_OTPC_DOUT0 (snd (snd ?L')))
                = length (reads_from RK3588_OTPC_DOUT0 ?tr4) + n"
    and dat: "steps (load_ok Rk3588_otp_read fuse) tr0 T \<longrightarrow>
                (\<forall>w. a + 1 = of_nat w + RK3588_NO_SECURE_OFFSET \<longrightarrow> 4 * (w + n) \<le> length fuse \<longrightarrow>
                   buf' = take (i + 4) ?buf @ take (4 * n) (drop (4 * w) fuse)
                          @ drop (i + 4 + 4 * n) ?buf)"
    by blast
  have rd: "reads_from RK3588_OTPC_DOUT0 ?tr2 = reads_from RK3588_OTPC_DOUT0 tr"
    by simp
  have "steps (load_ok Rk3588_otp_read fuse) tr0 T \<longrightarrow>
          (\<forall>w. a = of_nat w + RK3588_NO_SECURE_OFFSET \<longrightarrow> 4 * (w + Suc n) \<le> length fuse \<longrightarrow>
             buf' = take i buf @ take (4 * Suc n) (drop (4 * w) fuse) @ drop (i + 4 * Suc n) buf)"
  proof (intro impI allI)
    fix w
    assume ld: "steps (load_ok Rk3588_otp_read fuse) tr0 T"
      and a: "a = of_nat w + RK3588_NO_SECURE_OFFSET"
      and le: "4 * (w + Suc n) \<le> length fuse"
    have "run p ?tr4 (snd (snd ?L'))"
      by (intro run_intros) simp
    then have "run p ?tr4 T"
      using r4T by (rule run_trans)
    with ld r2 have "load_ok Rk3588_otp_read fuse ?tr2 (Readl RK3588_OTPC_DOUT0 ?v)"
      by (rule steps_at)
    moreover have "last_write RK3588_OTPC_AUTO_CTRL ?tr2
                     = Some (push_bit 16 (of_nat w + RK3588_NO_SECURE_OFFSET) OR push_bit 8 1)"
      unfolding a by simp
    moreover have "4 * w + 4 \<le> length fuse" "w < length fuse"
      using le by simp_all
    ultimately have v: "le_bytes 4 ?v = take 4 (drop (4 * w) fuse)"
      by simp
    have "a + 1 = of_nat (Suc w) + RK3588_NO_SECURE_OFFSET"
      using a by simp
    moreover have "4 * (Suc w + n) \<le> length fuse"
      using le by simp
    ultimately have B: "buf' = take (i + 4) ?buf @ take (4 * n) (drop (4 * Suc w) fuse)
                               @ drop (i + 4 + 4 * n) ?buf"
      using dat ld by blast
    have join: "take (4 * Suc n) (drop (4 * w) fuse)
                  = take 4 (drop (4 * w) fuse) @ take (4 * n) (drop (4 * Suc w) fuse)"
      using take_add [of 4 "4 * n" "drop (4 * w) fuse"] by (simp add: add.commute)
    have d: "i + 4 * Suc n = i + 4 + 4 * n"
      by simp
    show "buf' = take i buf @ take (4 * Suc n) (drop (4 * w) fuse)
                 @ drop (i + 4 * Suc n) buf"
      unfolding B d join using win v by simp
  qed
  with L' len cnt rd win(3) show ?case
    unfolding unfold by auto
qed

lemma rk3568_transfer_ok:
  assumes "steps (step_ok Rk3568_otp_read p) tr
             (trace_of (rk3568_transfer p addr_len a addr_offset bytes tr))"
    and "unat addr_offset + unat bytes \<le> 2 * unat addr_len"
  shows "\<exists>buf'. rk3568_transfer p addr_len a addr_offset bytes tr
                  = (Inr 0, take (unat bytes) (drop (unat addr_offset) buf'),
                     trace_of (rk3568_transfer p addr_len a addr_offset bytes tr))
           \<and> length buf' = 2 * unat addr_len
           \<and> length (reads_from OTPC_USER_Q
                       (trace_of (rk3568_transfer p addr_len a addr_offset bytes tr)))
               = length (reads_from OTPC_USER_Q tr) + unat addr_len
           \<and> (steps (load_ok Rk3568_otp_read fuse) tr
                 (trace_of (rk3568_transfer p addr_len a addr_offset bytes tr)) \<longrightarrow>
                (\<forall>w. a = of_nat w \<longrightarrow> 2 * (w + unat addr_len) \<le> length fuse \<longrightarrow>
                   buf' = take (2 * unat addr_len) (drop (2 * w) fuse)))"
proof -
  let ?X = "rk3568_transfer p addr_len a addr_offset bytes tr"
  let ?T = "trace_of ?X"
  let ?n = "unat addr_len"
  let ?ok = "kzalloc_ok p tr (2 * ?n)"
  have "run p (tr @ [Kzalloc (2 * ?n) ?ok]) ?T"
    by (auto simp: trace_of_def rk3568_transfer_def kzalloc_def rk3568_read_end_def
          rk3568_disable_clks_def rk3568_out_def split_def Let_def split: option.splits
          intro!: run_intros)
  with assms(1) have "step_ok Rk3568_otp_read p tr (Kzalloc (2 * ?n) ?ok)"
    by (rule steps_at [OF _ run_refl])
  then have ok: "?ok"
    by simp
  let ?tr0 = "tr @ [Kzalloc (2 * ?n) True]"
  have r0: "run p tr ?tr0"
    using ok by simp
  let ?r = "clk_enable_ret p ?tr0"
  have "run p (?tr0 @ [ClkEnable ?r]) ?T"
    using ok
    by (auto simp: trace_of_def rk3568_transfer_def kzalloc_def clk_bulk_prepare_enable_def
          rk3568_read_end_def rk3568_disable_clks_def rk3568_out_def split_def Let_def
          split: option.splits intro!: run_intros)
  with assms(1) r0 have "step_ok Rk3568_otp_read p ?tr0 (ClkEnable ?r)"
    by (rule steps_at)
  then have clk: "?r = 0"
    by simp
  let ?tr0' = "tr @ [Kzalloc (2 * ?n) True, ClkEnable 0]"
  have r0': "run p tr ?tr0'"
    using ok clk by simp
  define tr1 where "tr1 = snd (rockchip_otp_reset p ?tr0')"
  have "run p tr1 ?T"
    using ok clk
    by (auto simp: trace_of_def rk3568_transfer_def kzalloc_def clk_bulk_prepare_enable_def
          rk3568_read_end_def rk3568_disable_clks_def rk3568_out_def split_def Let_def
          tr1_def [symmetric] split: option.splits intro!: run_intros)
  then have rst: "fst (rockchip_otp_reset p ?tr0') = 0"
    unfolding tr1_def by (rule reset_ok_run [OF assms(1) r0'])
  have r1: "run p tr tr1"
    unfolding tr1_def using r0' by (rule run_reset)
  define tr2 where "tr2 = snd (px30_otp_ecc_enable p True tr1)"
  have "run p tr2 ?T"
    using ok clk rst
    by (auto simp: trace_of_def rk3568_transfer_def kzalloc_def clk_bulk_prepare_enable_def
          rk3568_read_end_def rk3568_disable_clks_def rk3568_out_def split_def Let_def
          tr1_def [symmetric] tr2_def [symmetric] split: option.splits intro!: run_intros)
  then have ecc: "fst (px30_otp_ecc_enable p True tr1) = 0"
    unfolding tr2_def by (rule ecc_enable_ok_run [OF assms(1) reg_read_t.distinct(5) r1])
  have r2: "run p tr tr2"
    unfolding tr2_def using r1 by (rule run_ecc_enable)
  let ?tr3 = "udelay 5 (writel (OTPC_USE_USER OR OTPC_USE_USER_MASK) OTPC_USER_CTRL tr2)"
  let ?L = "rk3568_read_loop p ?n a 0 (replicate (2 * ?n) 0) 0 ?tr3"
  have r3: "run p tr ?tr3"
    using r2 by (intro run_intros)
  have rd: "reads_from OTPC_USER_Q ?tr3 = reads_from OTPC_USER_Q tr"
    unfolding tr2_def tr1_def by (simp add: writel_def udelay_def)
  have eq: "?X = (case fst (snd ?L) of
                    None \<Rightarrow> (Inr (fst ?L), [], rk3568_read_end (snd (snd ?L)))
                  | Some buf \<Rightarrow>
                      if unat addr_offset + unat bytes \<le> length buf
                      then (Inr (fst ?L), take (unat bytes) (drop (unat addr_offset) buf),
                            rk3568_read_end (snd (snd ?L)))
                      else (Inl Scratch_Overrun, [], snd (snd ?L)))"
    using ok clk rst ecc unfolding tr2_def tr1_def
    by (simp add: rk3568_transfer_def kzalloc_def clk_bulk_prepare_enable_def
          split_def Let_def split: option.split)
  have "run p (snd (snd ?L)) ?T"
    unfolding eq
    by (simp add: trace_of_def rk3568_read_end_def rk3568_disable_clks_def rk3568_out_def
          writel_def kfree_def clk_bulk_disable_unprepare_def split: option.splits)
  from rk3568_loop_ok [OF assms(1) r3 this, of fuse] obtain buf' where
    L: "?L = (0, Some buf', snd (snd ?L))"
    and len: "length buf' = 2 * ?n"
    and cnt: "length (reads_from OTPC_USER_Q (snd (snd ?L)))
                = length (reads_from OTPC_USER_Q ?tr3) + ?n"
    and dat: "steps (load_ok Rk3568_otp_read fuse) tr ?T \<longrightarrow>
                (\<forall>w. a = of_nat w \<longrightarrow> 2 * (w + ?n) \<le> length fuse \<longrightarrow>
                   buf' = take 0 (replicate (2 * ?n) 0) @ take (2 * ?n) (drop (2 * w) fuse)
                          @ drop (0 + 2 * ?n) (replicate (2 * ?n) 0))"
    by auto
  have f: "fst ?L = 0" "fst (snd ?L) = Some buf'"
    using L by (metis fst_conv, metis fst_conv snd_conv)
  have X: "?X = (Inr 0, take (unat bytes) (drop (unat addr_offset) buf'),
                 rk3568_read_end (snd (snd ?L)))"
    unfolding eq f using len assms(2) by simp
  then have T: "?T = rk3568_read_end (snd (snd ?L))"
    by simp
  have "?X = (Inr 0, take (unat bytes) (drop (unat addr_offset) buf'), ?T)"
    using X T by simp
  moreover have "length (reads_from OTPC_USER_Q ?T) = length (reads_from OTPC_USER_Q tr) + ?n"
    unfolding T using cnt rd
    by (simp add: rk3568_read_end_def rk3568_disable_clks_def rk3568_out_def
          writel_def kfree_def clk_bulk_disable_unprepare_def)
  moreover have "steps (load_ok Rk3568_otp_read fuse) tr ?T \<longrightarrow>
                (\<forall>w. a = of_nat w \<longrightarrow> 2 * (w + ?n) \<le> length fuse \<longrightarrow>
                   buf' = take (2 * ?n) (drop (2 * w) fuse))"
    using dat by simp
  ultimately show ?thesis
    using len by blast
qed

lemma rk3588_transfer_ok:
  assumes "steps (step_ok Rk3588_otp_read p) tr
             (trace_of (rk3588_transfer p addr_len a addr_offset bytes tr))"
    and "unat addr_offset + unat bytes \<le> 4 * unat addr_len"
  shows "\<exists>buf'. rk3588_transfer p addr_len a addr_offset bytes tr
                  = (Inr 0, take (unat bytes) (drop (unat addr_offset) buf'),
                     trace_of (rk3588_transfer p addr_len a addr_offset bytes tr))
           \<and> length buf' = 4 * unat addr_len
           \<and> length (reads_from RK3588_OTPC_DOUT0
                       (trace_of (rk3588_transfer p addr_len a addr_offset bytes tr)))
               = length (reads_from RK3588_OTPC_DOUT0 tr) + unat addr_len
           \<and> (steps (load_ok Rk3588_otp_read fuse) tr
                 (trace_of (rk3588_transfer p addr_len a addr_offset bytes tr)) \<longrightarrow>
                (\<forall>w. a = of_nat w + RK3588_NO_SECURE_OFFSET \<longrightarrow>
                   4 * (w + unat addr_len) \<le> length fuse \<longrightarrow>
                   buf' = take (4 * unat addr_len) (drop (4 * w) fuse)))"
proof -
  let ?X = "rk3588_transfer p addr_len a addr_offset bytes tr"
  let ?T = "trace_of ?X"
  let ?n = "unat addr_len"
  let ?ok = "kzalloc_ok p tr (4 * ?n)"
  have "run p (tr @ [Kzalloc (4 * ?n) ?ok]) ?T"
    by (auto simp: trace_of_def rk3588_transfer_def kzalloc_def rk3588_read_end_def
          rk3588_out_def split_def Let_def split: option.splits intro!: run_intros)
  with assms(1) have "step_ok Rk3588_otp_read p tr (Kzalloc (4 * ?n) ?ok)"
    by (rule steps_at [OF _ run_refl])
  then have ok: "?ok"
    by simp
  let ?tr0 = "tr @ [Kzalloc (4 * ?n) True]"
  have r0: "run p tr ?tr0"
    using ok by simp
  let ?r = "clk_enable_ret p ?tr0"
  have "run p (?tr0 @ [ClkEnable ?r]) ?T"
    using ok
    by (auto simp: trace_of_def rk3588_transfer_def kzalloc_def clk_bulk_prepare_enable_def
          rk3588_read_end_def rk3588_out_def split_def Let_def
          split: option.splits intro!: run_intros)
  with assms(1) r0 have "step_ok Rk3588_otp_read p ?tr0 (ClkEnable ?r)"
    by (rule steps_at)
  then have clk: "?r = 0"
    by simp
  let ?tr3 = "tr @ [Kzalloc (4 * ?n) True, ClkEnable 0]"
  have r3: "run p tr ?tr3"
    using ok clk by simp
  let ?L = "rk3588_read_loop p ?n a 0 (replicate (4 * ?n) 0) 0 ?tr3"
  have eq: "?X = (case fst (snd ?L) of
                    None \<Rightarrow> (Inr (fst ?L), [], rk3588_read_end (snd (snd ?L)))
                  | Some buf \<Rightarrow>
                      if unat addr_offset + unat bytes \<le> length buf
                      then (Inr (fst ?L), take (unat bytes) (drop (unat addr_offset) buf),
                            rk3588_read_end (snd (snd ?L)))
                      else (Inl Scratch_Overrun, [], snd (snd ?L)))"
    using ok clk
    by (simp add: rk3588_transfer_def kzalloc_def clk_bulk_prepare_enable_def
          split_def Let_def split: option.split)
  have "run p (snd (snd ?L)) ?T"
    unfolding eq
    by (simp add: trace_of_def rk3588_read_end_def rk3588_out_def
          kfree_def clk_bulk_disable_unprepare_def split: option.splits)
  from rk3588_loop_ok [OF assms(1) r3 this, of fuse] obtain buf' where
    L: "?L = (0, Some buf', snd (snd ?L))"
    and len: "length buf' = 4 * ?n"
    and cnt: "length (reads_from RK3588_OTPC_DOUT0 (snd (snd ?L)))
                = length (reads_from RK3588_OTPC_DOUT0 ?tr3) + ?n"
    and dat: "steps (load_ok Rk3588_otp_read fuse) tr ?T \<longrightarrow>
                (\<forall>w. a = of_nat w + RK3588_NO_SECURE_OFFSET \<longrightarrow> 4 * (w + ?n) \<le> length fuse \<longrightarrow>
                   buf' = take 0 (replicate (4 * ?n) 0) @ take (4 * ?n) (drop (4 * w) fuse)
                          @ drop (0 + 4 * ?n) (replicate (4 * ?n) 0))"
    by auto
  have f: "fst ?L = 0" "fst (snd ?L) = Some buf'"
    using L by (metis fst_conv, metis fst_conv snd_conv)
  have X: "?X = (Inr 0, take (unat bytes) (drop (unat addr_offset) buf'),
                 rk3588_read_end (snd (snd ?L)))"
    unfolding eq f using len assms(2) by simp
  then have T: "?T = rk3588_read_end (snd (snd ?L))"
    by simp
  have "?X = (Inr 0, take (unat bytes) (drop (unat addr_offset) buf'), ?T)"
    using X T by simp
  moreover have "length (reads_from RK3588_OTPC_DOUT0 ?T)
                   = length (reads_from RK3588_OTPC_DOUT0 tr) + ?n"
    unfolding T using cnt
    by (simp add: rk3588_read_end_def rk3588_out_def kfree_def clk_bulk_disable_unprepare_def)
  moreover have "steps (load_ok Rk3588_otp_read fuse) tr ?T \<longrightarrow>
                (\<forall>w. a = of_nat w + RK3588_NO_SECURE_OFFSET \<longrightarrow> 4 * (w + ?n) \<le> length fuse \<longrightarrow>
                   buf' = take (4 * ?n) (drop (4 * w) fuse))"
    using dat by simp
  ultimately show ?thesis
    using len by blast
qed

lemma rk3568_read_completes:
  assumes "no_step_fails Rk3568_otp_read p tr (trace_of (rk3568_otp_read p offset bytes tr))"
    and "unat offset + unat bytes < 4294967296"
  shows "ret_of (rk3568_otp_read p offset bytes tr) = Inr 0"
    and "length (delivered (rk3568_otp_read p offset bytes tr)) = unat bytes"
    and "length (reads_from OTPC_USER_Q (trace_of (rk3568_otp_read p offset bytes tr)))
           = length (reads_from OTPC_USER_Q tr) + word_count 2 (unat offset) (unat bytes)"
proof -
  let ?len = "(ucast (roundup (ucast offset + bytes) 2 div 2 :: u64) :: u32)
                - rounddown offset 2 div 2"
  let ?X = "rk3568_transfer p ?len (rounddown offset 2 div 2) (offset mod 2) bytes tr"
  have R: "rk3568_otp_read p offset bytes tr = ?X"
    by (simp add: rk3568_otp_read_def Let_def)
  have s: "steps (step_ok Rk3568_otp_read p) tr (trace_of ?X)"
    using assms(1) unfolding R by (simp add: no_step_fails_def)
  from rk3568_transfer_ok [OF s rk3568_word_range(2) [OF assms(2)], of "[]"]
  obtain buf' where X: "?X = (Inr 0, take (unat bytes) (drop (unat (offset mod 2)) buf'),
                              trace_of ?X)"
    and len: "length buf' = 2 * unat ?len"
    and cnt: "length (reads_from OTPC_USER_Q (trace_of ?X))
                = length (reads_from OTPC_USER_Q tr) + unat ?len"
    by blast
  show "ret_of (rk3568_otp_read p offset bytes tr) = Inr 0"
    unfolding R by (subst X) simp
  show "length (delivered (rk3568_otp_read p offset bytes tr)) = unat bytes"
    unfolding R using len rk3568_word_range(2) [OF assms(2)] by (subst X) simp
  show "length (reads_from OTPC_USER_Q (trace_of (rk3568_otp_read p offset bytes tr)))
           = length (reads_from OTPC_USER_Q tr) + word_count 2 (unat offset) (unat bytes)"
    unfolding R using cnt rk3568_word_range(1) [OF assms(2)] by simp
qed

lemma rk3568_read_ok:
  assumes "no_step_fails Rk3568_otp_read p tr (trace_of (rk3568_otp_read p offset bytes tr))"
    and "loads_fuse Rk3568_otp_read fuse tr (trace_of (rk3568_otp_read p offset bytes tr))"
    and "unat offset + unat bytes \<le> length fuse" and "even (length fuse)"
    and "length fuse < 4294967296"
  shows "delivered (rk3568_otp_read p offset bytes tr)
           = take (unat bytes) (drop (unat offset) fuse)"
proof -
  let ?o = "unat offset" and ?b = "unat bytes"
  let ?start = "rounddown offset 2 div 2"
  let ?len = "(ucast (roundup (ucast offset + bytes) 2 div 2 :: u64) :: u32) - ?start"
  let ?X = "rk3568_transfer p ?len ?start (offset mod 2) bytes tr"
  have small: "?o + ?b < 4294967296"
    using assms(3,5) by simp
  have R: "rk3568_otp_read p offset bytes tr = ?X"
    by (simp add: rk3568_otp_read_def Let_def)
  have s: "steps (step_ok Rk3568_otp_read p) tr (trace_of ?X)"
    "steps (load_ok Rk3568_otp_read fuse) tr (trace_of ?X)"
    using assms(1,2) unfolding R by (simp_all add: no_step_fails_def loads_fuse_def)
  have len: "unat ?len = word_count 2 ?o ?b"
    by (rule rk3568_word_range(1) [OF small])
  have cover: "unat (offset mod 2) + ?b \<le> 2 * unat ?len"
    by (rule rk3568_word_range(2) [OF small])
  have st: "unat ?start = ?o div 2"
    by (rule unat_rounddown_div)
  have "of_nat (unat ?start) = ?start"
    by simp
  then have start: "?start = of_nat (?o div 2)"
    unfolding st by simp
  have off: "unat (offset mod 2) = ?o mod 2"
    by (simp add: unat_mod)
  have "?o div 2 + unat ?len = (?o + ?b + 1) div 2"
    unfolding len word_count_def using span_2(1) [of ?o ?b] by simp
  then have r1: "2 * (?o div 2 + unat ?len) \<le> length fuse"
    using word_range_2 [of "?o + ?b" "length fuse"] assms(3,4) by simp
  from rk3568_transfer_ok [OF s(1) cover, of fuse] s(2) start r1
  obtain buf' where X: "?X = (Inr 0, take ?b (drop (unat (offset mod 2)) buf'), trace_of ?X)"
    and buf: "buf' = take (2 * unat ?len) (drop (2 * (?o div 2)) fuse)"
    by blast
  have "take ?b (drop (unat (offset mod 2)) (take (2 * unat ?len) (drop (2 * (?o div 2)) fuse)))
          = take ?b (drop (2 * (?o div 2) + unat (offset mod 2)) fuse)"
    using take_drop_window [of "unat (offset mod 2)" ?b "2 * unat ?len" "drop (2 * (?o div 2)) fuse"]
      cover by (simp add: add.commute)
  moreover have "2 * (?o div 2) + unat (offset mod 2) = ?o"
    unfolding off by simp
  ultimately have "take ?b (drop (unat (offset mod 2)) buf') = take ?b (drop ?o fuse)"
    unfolding buf by simp
  then show ?thesis
    unfolding R by (subst X) simp
qed

lemma rk3588_read_unfold:
  assumes "unat (size_bytes d) < 2147483648" and "offset < size_bytes d"
    and "unat offset + unat bytes < 18446744073709551616"
  shows "\<exists>bytes'. unat bytes' = clamped_len (unat (size_bytes d)) (unat offset) (unat bytes)
           \<and> unat offset + unat bytes' \<le> unat (size_bytes d)
           \<and> rk3588_otp_read p d offset bytes tr
               = rk3588_transfer p
                   ((ucast (roundup (ucast offset + bytes') 4 div 4 :: u64) :: u32)
                      - rounddown offset 4 div 4)
                   (rounddown offset 4 div 4 + RK3588_NO_SECURE_OFFSET) (offset mod 4) bytes' tr"
proof -
  let ?bytes = "if ucast offset + bytes > (scast (size_bytes d) :: u64)
                then ucast (size_bytes d - offset) else bytes"
  have b: "unat ?bytes = clamped_len (unat (size_bytes d)) (unat offset) (unat bytes)"
    using rk3588_clamp_len [of "size_bytes d" offset bytes] assms by simp
  have "unat offset < unat (size_bytes d)"
    using assms(2) by (simp add: word_less_nat_alt)
  then have "unat offset + unat ?bytes \<le> unat (size_bytes d)"
    unfolding b by (simp add: clamped_len_def)
  moreover have "rk3588_otp_read p d offset bytes tr
               = rk3588_transfer p
                   ((ucast (roundup (ucast offset + ?bytes) 4 div 4 :: u64) :: u32)
                      - rounddown offset 4 div 4)
                   (rounddown offset 4 div 4 + RK3588_NO_SECURE_OFFSET) (offset mod 4) ?bytes tr"
    using assms(2) by (simp add: rk3588_otp_read_def Let_def not_le [symmetric])
  ultimately show ?thesis
    using b by blast
qed

lemma rk3588_read_completes:
  assumes "no_step_fails Rk3588_otp_read p tr (trace_of (rk3588_otp_read p d offset bytes tr))"
    and "unat (size_bytes d) < 2147483648" and "offset < size_bytes d"
    and "unat offset + unat bytes < 18446744073709551616"
  shows "ret_of (rk3588_otp_read p d offset bytes tr) = Inr 0"
    and "length (delivered (rk3588_otp_read p d offset bytes tr))
           = clamped_len (unat (size_bytes d)) (unat offset) (unat bytes)"
    and "length (reads_from RK3588_OTPC_DOUT0 (trace_of (rk3588_otp_read p d offset bytes tr)))
           = length (reads_from RK3588_OTPC_DOUT0 tr)
             + word_count 4 (unat offset)
                 (clamped_len (unat (size_bytes d)) (unat offset) (unat bytes))"
proof -
  from rk3588_read_unfold [OF assms(2,3,4), of p tr] obtain bytes' where
    b: "unat bytes' = clamped_len (unat (size_bytes d)) (unat offset) (unat bytes)"
    and le: "unat offset + unat bytes' \<le> unat (size_bytes d)"
    and R: "rk3588_otp_read p d offset bytes tr
              = rk3588_transfer p
                  ((ucast (roundup (ucast offset + bytes') 4 div 4 :: u64) :: u32)
                     - rounddown offset 4 div 4)
                  (rounddown offset 4 div 4 + RK3588_NO_SECURE_OFFSET) (offset mod 4) bytes' tr"
    by blast
  let ?len = "(ucast (roundup (ucast offset + bytes') 4 div 4 :: u64) :: u32)
                - rounddown offset 4 div 4"
  let ?X = "rk3588_transfer p ?len (rounddown offset 4 div 4 + RK3588_NO_SECURE_OFFSET)
              (offset mod 4) bytes' tr"
  have small: "unat offset + unat bytes' < 4294967296"
    using le assms(2) by simp
  have s: "steps (step_ok Rk3588_otp_read p) tr (trace_of ?X)"
    using assms(1) unfolding R by (simp add: no_step_fails_def)
  from rk3588_transfer_ok [OF s rk3588_word_range(2) [OF small], of "[]"]
  obtain buf' where X: "?X = (Inr 0, take (unat bytes') (drop (unat (offset mod 4)) buf'),
                              trace_of ?X)"
    and len: "length buf' = 4 * unat ?len"
    and cnt: "length (reads_from RK3588_OTPC_DOUT0 (trace_of ?X))
                = length (reads_from RK3588_OTPC_DOUT0 tr) + unat ?len"
    by blast
  show "ret_of (rk3588_otp_read p d offset bytes tr) = Inr 0"
    unfolding R by (subst X) simp
  show "length (delivered (rk3588_otp_read p d offset bytes tr))
          = clamped_len (unat (size_bytes d)) (unat offset) (unat bytes)"
    unfolding R b [symmetric] using len rk3588_word_range(2) [OF small] by (subst X) simp
  show "length (reads_from RK3588_OTPC_DOUT0 (trace_of (rk3588_otp_read p d offset bytes tr)))
           = length (reads_from RK3588_OTPC_DOUT0 tr)
             + word_count 4 (unat offset)
                 (clamped_len (unat (size_bytes d)) (unat offset) (unat bytes))"
    unfolding R b [symmetric] using cnt rk3588_word_range(1) [OF small] by simp
qed

lemma rk3588_read_ok:
  assumes "no_step_fails Rk3588_otp_read p tr (trace_of (rk3588_otp_read p d offset bytes tr))"
    and "loads_fuse Rk3588_otp_read fuse tr (trace_of (rk3588_otp_read p d offset bytes tr))"
    and "length fuse = unat (size_bytes d)" and "4 dvd length fuse"
    and "length fuse < 2147483648" and "offset < size_bytes d"
    and "unat offset + unat bytes < 18446744073709551616"
  shows "delivered (rk3588_otp_read p d offset bytes tr)
           = take (clamped_len (length fuse) (unat offset) (unat bytes)) (drop (unat offset) fuse)"
proof -
  have sz: "unat (size_bytes d) < 2147483648"
    using assms(3,5) by simp
  from rk3588_read_unfold [OF sz assms(6,7), of p tr] obtain bytes' where
    b: "unat bytes' = clamped_len (unat (size_bytes d)) (unat offset) (unat bytes)"
    and le: "unat offset + unat bytes' \<le> unat (size_bytes d)"
    and R: "rk3588_otp_read p d offset bytes tr
              = rk3588_transfer p
                  ((ucast (roundup (ucast offset + bytes') 4 div 4 :: u64) :: u32)
                     - rounddown offset 4 div 4)
                  (rounddown offset 4 div 4 + RK3588_NO_SECURE_OFFSET) (offset mod 4) bytes' tr"
    by blast
  let ?o = "unat offset" and ?b = "unat bytes'"
  let ?start = "rounddown offset 4 div 4"
  let ?len = "(ucast (roundup (ucast offset + bytes') 4 div 4 :: u64) :: u32) - ?start"
  let ?X = "rk3588_transfer p ?len (?start + RK3588_NO_SECURE_OFFSET) (offset mod 4) bytes' tr"
  have small: "?o + ?b < 4294967296"
    using le sz by simp
  have s: "steps (step_ok Rk3588_otp_read p) tr (trace_of ?X)"
    "steps (load_ok Rk3588_otp_read fuse) tr (trace_of ?X)"
    using assms(1,2) unfolding R by (simp_all add: no_step_fails_def loads_fuse_def)
  have len: "unat ?len = word_count 4 ?o ?b"
    by (rule rk3588_word_range(1) [OF small])
  have cover: "unat (offset mod 4) + ?b \<le> 4 * unat ?len"
    by (rule rk3588_word_range(2) [OF small])
  have st: "unat ?start = ?o div 4"
    by (rule unat_rounddown_div)
  have "of_nat (unat ?start) = ?start"
    by simp
  then have start: "?start + RK3588_NO_SECURE_OFFSET = of_nat (?o div 4) + RK3588_NO_SECURE_OFFSET"
    unfolding st by simp
  have off: "unat (offset mod 4) = ?o mod 4"
    by (simp add: unat_mod)
  have "?o div 4 + unat ?len = (?o + ?b + 3) div 4"
    unfolding len word_count_def using span_4(1) [of ?o ?b] by simp
  then have r1: "4 * (?o div 4 + unat ?len) \<le> length fuse"
    using word_range_4 [of "?o + ?b" "length fuse"] le assms(3,4) by simp
  from rk3588_transfer_ok [OF s(1) cover, of fuse] s(2) start r1
  obtain buf' where X: "?X = (Inr 0, take ?b (drop (unat (offset mod 4)) buf'), trace_of ?X)"
    and buf: "buf' = take (4 * unat ?len) (drop (4 * (?o div 4)) fuse)"
    by blast
  have "take ?b (drop (unat (offset mod 4)) (take (4 * unat ?len) (drop (4 * (?o div 4)) fuse)))
          = take ?b (drop (4 * (?o div 4) + unat (offset mod 4)) fuse)"
    using take_drop_window [of "unat (offset mod 4)" ?b "4 * unat ?len" "drop (4 * (?o div 4)) fuse"]
      cover by (simp add: add.commute)
  moreover have "4 * (?o div 4) + unat (offset mod 4) = ?o"
    unfolding off by simp
  ultimately have "take ?b (drop (unat (offset mod 4)) buf') = take ?b (drop ?o fuse)"
    unfolding buf by simp
  then show ?thesis
    unfolding R b [symmetric] assms(3) [symmetric] using b assms(3) by (subst X) simp
qed

subsection \<open>The simulated controllers\<close>

lemma not_stays_clear: "readl_val q tr s AND flag \<noteq> 0 \<Longrightarrow> \<not> stays_clear q s flag n tr"
  by (auto simp: stays_clear_def poll_value_def intro: exI [of _ 0])

lemma awaited_cases:
  assumes "awaited f e = Some (s, flag)"
  shows "s = status_reg f \<and> flag \<noteq> 0 \<and> done_step f e st AND flag = flag"
proof -
  have "(st OR flag) AND flag = flag"
    by (rule bit_eqI) (auto simp: bit_simps)
  then show ?thesis
    using assms by (cases f; cases e) (auto simp: done_step_def split: if_splits)
qed

lemma handshake_status:
  assumes "awaited f e = Some (s, flag)"
  shows "readl_val (handshake f q) (h @ [e]) s AND flag \<noteq> 0"
  using awaited_cases [OF assms, of "done_bits f h"]
  by (simp add: handshake_def done_bits_def)

lemma step_ok_answers:
  assumes "\<And>h. clk_enable_ret q h = 0" and "\<And>h. assert_ret q h = 0"
    and "\<And>h. deassert_ret q h = 0" and "\<And>h n. kzalloc_ok q h n"
    and "\<And>h. f = Rk3568_otp_read \<Longrightarrow> \<not> ecc_flagged (readl_val q h OTPC_USER_QP)"
    and "\<And>h e s flag. awaited f e = Some (s, flag) \<Longrightarrow> readl_val q (h @ [e]) s AND flag \<noteq> 0"
    and "answers q h e"
  shows "step_ok f q h e"
proof (cases e)
  case (Writel v a)
  show ?thesis
  proof (cases "awaited f e")
    case None
    then show ?thesis using Writel by simp
  next
    case (Some sf)
    obtain s flag where sf: "sf = (s, flag)"
      by (cases sf)
    from assms(6) [of e s flag h] Some sf
    have "\<not> stays_clear q s flag OTPC_TIMEOUT (h @ [e])"
      by (intro not_stays_clear) simp
    then show ?thesis
      using Writel Some sf by simp
  qed
qed (use assms in auto)

lemma awaited_user:
  assumes "awaited f e = Some (s, flag)" and "f \<noteq> Rk3588_otp_read"
  shows "s = OTPC_INT_STATUS \<and> (flag = OTPC_SBPI_DONE \<or> flag = OTPC_USER_DONE)"
  using assms by (cases f; cases e) (auto split: if_splits)


lemma sim_px30_status:
  assumes "awaited Px30_otp_read e = Some (s, flag)"
  shows "readl_val (sim_px30 fuse) (h @ [e]) s AND flag \<noteq> 0"
  using awaited_user [OF assms] by (auto simp: sim_px30_def)

lemma sim_rk3568_status:
  assumes "awaited Rk3568_otp_read e = Some (s, flag)"
  shows "readl_val (sim_rk3568 fuse qp) (h @ [e]) s AND flag \<noteq> 0"
  using awaited_user [OF assms] by (auto simp: sim_rk3568_def)


lemma sim_px30_steps:
  "no_step_fails Px30_otp_read (sim_px30 fuse) tr
     (trace_of (call_reg_read Px30_otp_read (sim_px30 fuse) d offset bytes tr))"
  unfolding no_step_fails_def
proof (rule steps_mono [OF run_call [OF run_refl]])
  fix h e
  assume "answers (sim_px30 fuse) h e"
  then show "step_ok Px30_otp_read (sim_px30 fuse) h e"
    by (rule step_ok_answers [rotated -1])
       (simp_all add: sim_px30_status, simp_all add: sim_px30_def)
qed

lemma sim_rk3568_steps:
  assumes "\<forall>w. \<not> ecc_flagged (qp w)"
  shows "no_step_fails Rk3568_otp_read (sim_rk3568 fuse qp) tr
     (trace_of (call_reg_read Rk3568_otp_read (sim_rk3568 fuse qp) d offset bytes tr))"
  unfolding no_step_fails_def
proof (rule steps_mono [OF run_call [OF run_refl]])
  fix h e
  have qp: "\<not> ecc_flagged (readl_val (sim_rk3568 fuse qp) h OTPC_USER_QP)" for h
    using assms by (simp add: sim_rk3568_def ecc_flagged_def Let_def split: option.splits)
  assume "answers (sim_rk3568 fuse qp) h e"
  then show "step_ok Rk3568_otp_read (sim_rk3568 fuse qp) h e"
    by (rule step_ok_answers [rotated -1])
       (simp_all add: sim_rk3568_status qp, simp_all add: sim_rk3568_def)
qed


lemma handshake_px30_steps:
  "no_step_fails Px30_otp_read (handshake Px30_otp_read (sim_px30 fuse)) tr
     (trace_of (call_reg_read Px30_otp_read (handshake Px30_otp_read (sim_px30 fuse))
                 d offset bytes tr))"
  unfolding no_step_fails_def
proof (rule steps_mono [OF run_call [OF run_refl]])
  fix h e
  assume "answers (handshake Px30_otp_read (sim_px30 fuse)) h e"
  then show "step_ok Px30_otp_read (handshake Px30_otp_read (sim_px30 fuse)) h e"
    by (rule step_ok_answers [rotated -1])
       (simp_all add: handshake_status, simp_all add: handshake_def sim_px30_def)
qed

lemma handshake_rk3588_steps:
  "no_step_fails Rk3588_otp_read (handshake Rk3588_otp_read (sim_rk3588 fuse)) tr
     (trace_of (call_reg_read Rk3588_otp_read (handshake Rk3588_otp_read (sim_rk3588 fuse))
                 d offset bytes tr))"
  unfolding no_step_fails_def
proof (rule steps_mono [OF run_call [OF run_refl]])
  fix h e
  assume "answers (handshake Rk3588_otp_read (sim_rk3588 fuse)) h e"
  then show "step_ok Rk3588_otp_read (handshake Rk3588_otp_read (sim_rk3588 fuse)) h e"
    by (rule step_ok_answers [rotated -1])
       (simp_all add: handshake_status, simp_all add: handshake_def sim_rk3588_def)
qed

lemma px30_load_answers:
  assumes "length fuse \<le> 65536"
    and "\<And>h. readb_val q h OTPC_USER_Q = readb_val (sim_px30 fuse) h OTPC_USER_Q"
    and "answers q h e"
  shows "load_ok Px30_otp_read fuse h e"
proof (cases e)
  case (Readb a v)
  then show ?thesis
    using assms by (auto simp: sim_px30_def user_addr_decode cell_def)
qed simp_all

lemma rk3568_load_answers:
  assumes "length fuse \<le> 131072"
    and "\<And>h. readl_val q h OTPC_USER_Q = readl_val (sim_rk3568 fuse qp) h OTPC_USER_Q"
    and "answers q h e"
  shows "load_ok Rk3568_otp_read fuse h e"
proof (cases e)
  case (Readl a v)
  then show ?thesis
    using assms
    by (auto simp: sim_rk3568_def user_addr_decode cell_def Let_def le_bytes_2 take_2_drop)
qed simp_all

lemma sim_rk3588_load:
  assumes "length fuse \<le> 259072" and "4 * w + 4 \<le> length fuse"
    and "last_write RK3588_OTPC_AUTO_CTRL h
           = Some (push_bit 16 (of_nat w + RK3588_NO_SECURE_OFFSET) OR push_bit 8 1)"
  shows "le_bytes 4 (readl_val (sim_rk3588 fuse) h RK3588_OTPC_DOUT0) = take 4 (drop (4 * w) fuse)"
proof -
  have "w + 768 < 65536"
    using assms(1,2) by simp
  then have dec: "unat (drop_bit 16 (push_bit 16 (of_nat w + RK3588_NO_SECURE_OFFSET)
                    OR push_bit 8 1 :: u32)) - unat RK3588_NO_SECURE_OFFSET = w"
    by (rule auto_ctrl_decode)
  have "readl_val (sim_rk3588 fuse) h RK3588_OTPC_DOUT0
          = ucast (cell fuse (4 * w)) OR push_bit 8 (ucast (cell fuse (4 * w + 1)))
            OR push_bit 16 (ucast (cell fuse (4 * w + 2)))
            OR push_bit 24 (ucast (cell fuse (4 * w + 3)))"
    using assms(3) dec by (simp add: sim_rk3588_def Let_def del: push_bit_of_1)
  then show ?thesis
    using assms(2) by (simp add: le_bytes_4 take_4_drop cell_def)
qed

lemma rk3588_load_answers:
  assumes "length fuse \<le> 259072"
    and "\<And>h. readl_val q h RK3588_OTPC_DOUT0 = readl_val (sim_rk3588 fuse) h RK3588_OTPC_DOUT0"
    and "answers q h e"
  shows "load_ok Rk3588_otp_read fuse h e"
proof (cases e)
  case (Readl a v)
  then show ?thesis
    using assms(2,3) sim_rk3588_load [OF assms(1), of _ h]
    by (auto simp del: push_bit_of_1)
qed simp_all

lemma sim_px30_loads:
  assumes "length fuse \<le> 65536"
  shows "loads_fuse Px30_otp_read fuse tr
           (trace_of (call_reg_read Px30_otp_read (sim_px30 fuse) d offset bytes tr))"
    and "loads_fuse Px30_otp_read fuse tr
           (trace_of (call_reg_read Px30_otp_read (handshake Px30_otp_read (sim_px30 fuse))
                       d offset bytes tr))"
  unfolding loads_fuse_def
  by (rule steps_mono [OF run_call [OF run_refl]], erule px30_load_answers [OF assms, rotated],
      simp add: handshake_def)+

lemma sim_rk3568_loads:
  assumes "length fuse \<le> 131072"
  shows "loads_fuse Rk3568_otp_read fuse tr
           (trace_of (call_reg_read Rk3568_otp_read (sim_rk3568 fuse qp) d offset bytes tr))"
  unfolding loads_fuse_def
  by (rule steps_mono [OF run_call [OF run_refl]], erule rk3568_load_answers [OF assms, rotated],
      simp)

lemma sim_rk3588_loads:
  assumes "length fuse \<le> 259072"
  shows "loads_fuse Rk3588_otp_read fuse tr
           (trace_of (call_reg_read Rk3588_otp_read (sim_rk3588 fuse) d offset bytes tr))"
    and "loads_fuse Rk3588_otp_read fuse tr
           (trace_of (call_reg_read Rk3588_otp_read (handshake Rk3588_otp_read (sim_rk3588 fuse))
                       d offset bytes tr))"
  unfolding loads_fuse_def
  by (rule steps_mono [OF run_call [OF run_refl]], erule rk3588_load_answers [OF assms, rotated],
      simp add: handshake_def)+

subsection \<open>Offset and length slicing\<close>

text \<open>
  C1.  Let \<open>f\<close> be any of the three engines and take one read by it, on any platform.
  Suppose that no hardware step of this read fails, and that every load of this read from
  the data register returns the cells of the fuse image \<open>fuse\<close> at the address programmed
  last; the image has the size the descriptor gives (a non-negative \<open>int\<close>) and is a whole
  number of the engine's words.  Then for every request with \<open>offset + len \<le> size\<close> the
  bytes stored to the caller's buffer are exactly the slice \<open>[offset, offset + len)\<close> of the
  image, whatever the alignment of \<open>offset\<close> and \<open>offset + len\<close>; the read returns \<open>0\<close>
  when it begins inside the image.  (The empty request at \<open>offset = size\<close> delivers the
  empty slice too; there the rk3588 engine reports \<open>-ENOMEM\<close>.)  Both conditions speak of
  the calls of this read only, so they hold on a controller with sticky done bits as well
  as on one whose done bits always read as set.
\<close>

theorem otp_read_slice:
  assumes "no_step_fails f p tr (trace_of (call_reg_read f p d offset bytes tr))"
    and "loads_fuse f fuse tr (trace_of (call_reg_read f p d offset bytes tr))"
    and "length fuse = unat (size_bytes d)" and "word_bytes f dvd length fuse"
    and "length fuse < 2147483648"
    and "unat offset + unat bytes \<le> length fuse"
  shows "delivered (call_reg_read f p d offset bytes tr)
           = take (unat bytes) (drop (unat offset) fuse)
       \<and> (unat offset < length fuse \<longrightarrow> ret_of (call_reg_read f p d offset bytes tr) = Inr 0)"
proof (cases f)
  case Px30_otp_read
  with px30_read_ok [of p tr offset bytes fuse] assms show ?thesis
    by simp
next
  case Rk3568_otp_read
  have "unat offset + unat bytes < 4294967296"
    using assms(5,6) by simp
  with rk3568_read_ok [of p tr offset bytes fuse] rk3568_read_completes(1) [of p tr offset bytes]
    assms Rk3568_otp_read
  show ?thesis
    by simp
next
  case Rk3588_otp_read
  show ?thesis
  proof (cases "offset < size_bytes d")
    case True
    have "clamped_len (length fuse) (unat offset) (unat bytes) = unat bytes"
      using assms(6) by (simp add: clamped_len_def)
    moreover have "unat offset + unat bytes < 18446744073709551616"
      using assms(5,6) by simp
    ultimately show ?thesis
      using rk3588_read_ok [of p tr d offset bytes fuse]
        rk3588_read_completes(1) [of p tr d offset bytes] assms True Rk3588_otp_read
      by simp
  next
    case False
    then have ge: "size_bytes d \<le> offset"
      by simp
    then have "unat offset \<ge> length fuse"
      using assms(3) by (simp add: word_le_nat_alt)
    with assms(6) ge Rk3588_otp_read show ?thesis
      by (simp add: rk3588_otp_read_def)
  qed
qed

theorem otp_read_slice_witness:
  "no_step_fails Px30_otp_read (handshake Px30_otp_read (sim_px30 (map of_nat [0..<64]))) []
     (trace_of (call_reg_read Px30_otp_read
                  (handshake Px30_otp_read (sim_px30 (map of_nat [0..<64]))) px30_data 2 3 []))
   \<and> delivered (call_reg_read Px30_otp_read
                  (handshake Px30_otp_read (sim_px30 (map of_nat [0..<64]))) px30_data 2 3 [])
     = take 3 (drop 2 (map of_nat [0..<64]))
   \<and> ret_of (call_reg_read Px30_otp_read
               (handshake Px30_otp_read (sim_px30 (map of_nat [0..<64]))) px30_data 2 3 [])
     = Inr 0
   \<and> delivered (call_reg_read Rk3568_otp_read (sim_rk3568 (map of_nat [0..<128]) (\<lambda>w. 0))
                 rk3568_data 1 4 [])
     = take 4 (drop 1 (map of_nat [0..<128]))
   \<and> delivered (call_reg_read Rk3588_otp_read
                  (handshake Rk3588_otp_read (sim_rk3588 (map of_nat [0..<1024])))
                  rk3588_data 0x10 8 [])
     = take 8 (drop 16 (map of_nat [0..<1024]))"
  using otp_read_slice [of Px30_otp_read
      "handshake Px30_otp_read (sim_px30 (map of_nat [0..<64]))" "[]" px30_data 2 3
      "map of_nat [0..<64]"]
    otp_read_slice [of Rk3568_otp_read "sim_rk3568 (map of_nat [0..<128]) (\<lambda>w. 0)" "[]"
      rk3568_data 1 4 "map of_nat [0..<128]"]
    otp_read_slice [of Rk3588_otp_read
      "handshake Rk3588_otp_read (sim_rk3588 (map of_nat [0..<1024]))" "[]" rk3588_data
      "0x10" 8 "map of_nat [0..<1024]"]
    handshake_px30_steps [of "map of_nat [0..<64]" "[]" px30_data 2 3]
    sim_px30_loads(2) [of "map of_nat [0..<64]" "[]" px30_data 2 3]
    sim_rk3568_steps [of "\<lambda>w. 0" "map of_nat [0..<128]" "[]" rk3568_data 1 4]
    sim_rk3568_loads [of "map of_nat [0..<128]" "[]" "\<lambda>w. 0" rk3568_data 1 4]
    handshake_rk3588_steps [of "map of_nat [0..<1024]" "[]" rk3588_data "0x10" 8]
    sim_rk3588_loads(2) [of "map of_nat [0..<1024]" "[]" rk3588_data "0x10" 8]
  by (simp add: px30_data_def rk3568_data_def rk3588_data_def ecc_flagged_def)

subsection \<open>Length clamping\<close>

text \<open>
  C3.  A read of the rk3588 engine that begins inside the fuse (\<open>offset < size\<close>) and runs
  past its end (\<open>offset + len > size\<close>), and in which no hardware step fails, returns \<open>0\<close>
  and stores exactly \<open>size - offset\<close> bytes to the caller's buffer.  The fuse size is a
  non-negative \<open>int\<close>, and \<open>offset + len\<close> is the sum the code forms in \<open>size_t\<close>: it
  does not wrap, as for every buffer of \<open>len\<close> bytes that exists in a 64-bit address space.
\<close>

theorem rk3588_clamp:
  assumes "no_step_fails Rk3588_otp_read p tr (trace_of (rk3588_otp_read p d offset bytes tr))"
    and "unat (size_bytes d) < 2147483648"
    and "offset < size_bytes d" and "unat (size_bytes d) < unat offset + unat bytes"
    and "unat offset + unat bytes < 18446744073709551616"
  shows "ret_of (rk3588_otp_read p d offset bytes tr) = Inr 0
       \<and> length (delivered (rk3588_otp_read p d offset bytes tr))
           = unat (size_bytes d) - unat offset"
  using rk3588_read_completes(1,2) [OF assms(1,2,3,5)] assms(4)
  by (simp add: clamped_len_def)

theorem rk3588_clamp_witness:
  "no_step_fails Rk3588_otp_read (handshake Rk3588_otp_read (sim_rk3588 [])) []
     (trace_of (rk3588_otp_read (handshake Rk3588_otp_read (sim_rk3588 [])) rk3588_data 1020 16 []))
   \<and> ret_of (rk3588_otp_read (handshake Rk3588_otp_read (sim_rk3588 [])) rk3588_data 1020 16 [])
       = Inr 0
   \<and> length (delivered (rk3588_otp_read (handshake Rk3588_otp_read (sim_rk3588 []))
                          rk3588_data 1020 16 [])) = 4"
  using rk3588_clamp [of "handshake Rk3588_otp_read (sim_rk3588 [])" "[]" rk3588_data 1020 16]
    handshake_rk3588_steps [of "[]" "[]" rk3588_data 1020 16]
  by (simp add: rk3588_data_def)

subsection \<open>Requests of length zero\<close>




subsection \<open>Balanced gating\<close>

text \<open>
  C6.  Whenever a read of any engine returns, on any platform and for any request, the
  resources it took are released: started with the clock group disabled, the reset line
  deasserted, no scratch buffer live and the user interface not selected, the trace of the
  read is accepted by the monitor \<open>gate_step\<close> and ends in the same state.  So a clock
  enable that did not fail is followed by exactly one clock disable, a reset assert that
  succeeded by a deassert, an allocation that succeeded by a \<open>kfree\<close>, and on px30 and
  rk3568 the selection of the user interface by its clearing, which comes before the clock
  disable.  This covers the exits by success, timeout, ECC failure, reset failure and
  allocation failure alike, since the platform is arbitrary.
\<close>

theorem read_releases:
  assumes "released tr" and "call_reg_read f p d offset bytes tr = (Inr ret, out, tr')"
  shows "released tr'"
proof -
  have "ret_of (call_reg_read f p d offset bytes tr) \<noteq> Inl Scratch_Overrun"
    and tr': "tr' = trace_of (call_reg_read f p d offset bytes tr)"
    using assms(2) by (simp_all add: ret_of_def trace_of_def)
  then show ?thesis
    using assms(1) px30_released rk3568_released rk3588_released
    by (cases f) simp_all
qed

theorem read_releases_witness:
  "released []
   \<and> ret_of (call_reg_read Rk3568_otp_read (sim_rk3568 [] (\<lambda>w. 0)) rk3568_data 1 4 []) = Inr 0
   \<and> released (trace_of (call_reg_read Rk3568_otp_read (sim_rk3568 [] (\<lambda>w. 0)) rk3568_data 1 4 []))
   \<and> ret_of (call_reg_read Px30_otp_read dead_clocks px30_data 0 4 []) = Inr (- EIO)
   \<and> released (trace_of (call_reg_read Px30_otp_read dead_clocks px30_data 0 4 []))"
proof -
  have r0: "released []"
    by (simp add: released_def gate_run_def)
  have "ret_of (call_reg_read Rk3568_otp_read (sim_rk3568 [] (\<lambda>w. 0)) rk3568_data 1 4 []) = Inr 0"
    using rk3568_read_completes(1) [of "sim_rk3568 [] (\<lambda>w. 0)" "[]" 1 4]
      sim_rk3568_steps [of "\<lambda>w. 0" "[]" "[]" rk3568_data 1 4]
    by (simp add: ecc_flagged_def)
  then obtain out tr' where ok:
    "call_reg_read Rk3568_otp_read (sim_rk3568 [] (\<lambda>w. 0)) rk3568_data 1 4 [] = (Inr 0, out, tr')"
    by (cases "call_reg_read Rk3568_otp_read (sim_rk3568 [] (\<lambda>w. 0)) rk3568_data 1 4 []") simp
  have dead: "call_reg_read Px30_otp_read dead_clocks px30_data 0 4 []
                = (Inr (- EIO), [], [ClkEnable (- EIO), DevErr ''failed to prepare/enable clks''])"
    by (simp add: px30_otp_read_def clk_bulk_prepare_enable_def dev_err_def dead_clocks_def)
  show ?thesis
    using r0 ok dead read_releases [OF r0 ok] read_releases [OF r0 dead]
    by simp
qed

end
